theory Spec2Isabelle
  imports Main
begin

section \<open>SetKeyedMap: a map keyed by sets, embedded from src/index.ts\<close>

text \<open>
  The class keeps two private fields: \<open>valueMap\<close>, a JavaScript \<open>Map\<close> from key objects to
  values, and \<open>subkeyToKeys\<close>, a \<open>Map\<close> from each element to the array of canonical keys
  containing it. Both maps compare keys by reference, and \<open>delete\<close> filters rows with
  \<open>k !== canonicalKey\<close>, so the identity of a key object matters: key objects live in an
  explicit heap and are named by their address.

  \<^item> A \<open>Set\<close> object is the list of its elements in insertion order (duplicate free by
    construction of \<open>Set\<close>); the heap is the list of all \<open>Set\<close> objects allocated so far
    and a reference is an index into it. JavaScript has no dangling references: the heap
    is only read at allocated addresses, those of a caller by the check in \<open>step\<close> and
    those held by the container by its invariant.
  \<^item> \<open>valueMap\<close> is an association list in insertion order, as a JavaScript \<open>Map\<close> iterates.
  \<^item> \<open>subkeyToKeys\<close> is only ever read and written by key, so it is a partial function
    from elements to rows. The row arrays are created inside the class and never handed
    out, so they are plain lists.
  \<^item> \<open>false\<close> / \<open>undefined\<close> results are \<open>None\<close>.
  \<^item> Callbacks are pure functions of the value and of the elements of the key copy they
    receive.
\<close>

subsection \<open>The heap of Set objects\<close>

type_synonym ref = nat
type_synonym 'e heap = "'e list list"

text \<open>\<open>new Set(Array.from(from))\<close>: a fresh object holding the elements of \<open>from\<close>.\<close>

definition newSetFrom :: "'e heap \<Rightarrow> ref \<Rightarrow> 'e heap \<times> ref" where
  "newSetFrom h frm = (h @ [h ! frm], length h)"

subsection \<open>JavaScript Map with reference keys\<close>

fun Map_has :: "('k \<times> 'v) list \<Rightarrow> 'k \<Rightarrow> bool" where
  "Map_has [] k = False"
| "Map_has ((k', v') # kvs) k = (if k' = k then True else Map_has kvs k)"

fun Map_get :: "('k \<times> 'v) list \<Rightarrow> 'k \<Rightarrow> 'v option" where
  "Map_get [] k = None"
| "Map_get ((k', v') # kvs) k = (if k' = k then Some v' else Map_get kvs k)"

text \<open>\<open>Map.set\<close> overwrites in place when the key is present and appends otherwise.\<close>

fun Map_set :: "('k \<times> 'v) list \<Rightarrow> 'k \<Rightarrow> 'v \<Rightarrow> ('k \<times> 'v) list" where
  "Map_set [] k v = [(k, v)]"
| "Map_set ((k', v') # kvs) k v =
     (if k' = k then (k', v) # kvs else (k', v') # Map_set kvs k v)"

fun Map_delete :: "('k \<times> 'v) list \<Rightarrow> 'k \<Rightarrow> ('k \<times> 'v) list" where
  "Map_delete [] k = []"
| "Map_delete ((k', v') # kvs) k =
     (if k' = k then kvs else (k', v') # Map_delete kvs k)"

subsection \<open>The container\<close>

record ('e, 'v) SetKeyedMap =
  valueMap :: "(ref \<times> 'v) list"
  subkeyToKeys :: "'e \<Rightarrow> ref list option"

definition new_SetKeyedMap :: "('e, 'v) SetKeyedMap" where
  "new_SetKeyedMap = \<lparr>valueMap = [], subkeyToKeys = (\<lambda>e. None)\<rparr>"

definition size_skm :: "('e, 'v) SetKeyedMap \<Rightarrow> nat" where
  "size_skm m = length (valueMap m)"

definition clear :: "('e, 'v) SetKeyedMap \<Rightarrow> ('e, 'v) SetKeyedMap" where
  "clear m = m\<lparr>valueMap := [], subkeyToKeys := (\<lambda>e. None)\<rparr>"

text \<open>
  \<open>getCannonicalKey\<close> (the spelling is the source's). The rows fetched for the subkeys are
  restricted to keys of the candidate's size, sorted by length with the stable
  \<open>Array.prototype.sort\<close>, and the first row is searched for a key that every row includes.
  An empty array is truthy in JavaScript, so \<open>!firstSubkeys\<close> holds only when there is no
  first row at all.
\<close>

definition getCannonicalKey :: "'e heap \<Rightarrow> ('e, 'v) SetKeyedMap \<Rightarrow> ref \<Rightarrow> ref option" where
  "getCannonicalKey h m key =
     (if Map_has (valueMap m) key then Some key
      else
        let subkeys = h ! key;
            potentialCanonicalKeys =
              map (\<lambda>keys. case keys of
                             None \<Rightarrow> []
                           | Some ks \<Rightarrow> filter (\<lambda>k. length (h ! k) = length subkeys) ks)
                  (map (\<lambda>subkey. subkeyToKeys m subkey) subkeys);
            sorted = sort_key length potentialCanonicalKeys
        in case sorted of
             [] \<Rightarrow> None
           | firstSubkeys # _ \<Rightarrow>
               find (\<lambda>k. list_all (\<lambda>keys. k \<in> set keys) sorted) firstSubkeys)"

definition createCanonicalKey :: "'e heap \<Rightarrow> ref \<Rightarrow> 'e heap \<times> ref" where
  "createCanonicalKey h frm = newSetFrom h frm"

definition createUserFacingKey :: "'e heap \<Rightarrow> ref \<Rightarrow> 'e heap \<times> ref" where
  "createUserFacingKey h frm = newSetFrom h frm"

text \<open>The loop of \<open>set\<close> that appends the new canonical key to the row of each subkey.\<close>

fun register :: "ref \<Rightarrow> 'e list \<Rightarrow> ('e \<Rightarrow> ref list option) \<Rightarrow> ('e \<Rightarrow> ref list option)" where
  "register canonicalKey [] idx = idx"
| "register canonicalKey (subkey # rest) idx =
     (let keyList = (case idx subkey of None \<Rightarrow> [] | Some l \<Rightarrow> l)
      in register canonicalKey rest (idx(subkey \<mapsto> keyList @ [canonicalKey])))"

definition set_skm ::
  "'e heap \<Rightarrow> ('e, 'v) SetKeyedMap \<Rightarrow> ref \<Rightarrow> 'v \<Rightarrow> 'e heap \<times> ('e, 'v) SetKeyedMap" where
  "set_skm h m key v =
     (case getCannonicalKey h m key of
        Some existingCanonicalKey \<Rightarrow>
          (h, m\<lparr>valueMap := Map_set (valueMap m) existingCanonicalKey v\<rparr>)
      | None \<Rightarrow>
          (case createCanonicalKey h key of
             (h', canonicalKey) \<Rightarrow>
               (h', m\<lparr>valueMap := Map_set (valueMap m) canonicalKey v,
                       subkeyToKeys := register canonicalKey (h' ! canonicalKey) (subkeyToKeys m)\<rparr>)))"

text \<open>The loop of \<open>delete\<close> that removes the canonical key from the row of each subkey.\<close>

fun unregister :: "ref \<Rightarrow> 'e list \<Rightarrow> ('e \<Rightarrow> ref list option) \<Rightarrow> ('e \<Rightarrow> ref list option)" where
  "unregister canonicalKey [] idx = idx"
| "unregister canonicalKey (subkey # rest) idx =
     (case idx subkey of
        None \<Rightarrow> unregister canonicalKey rest idx
      | Some keylist \<Rightarrow>
          (let newkeylist = filter (\<lambda>k. k \<noteq> canonicalKey) keylist
           in if newkeylist \<noteq> []
              then unregister canonicalKey rest (idx(subkey \<mapsto> newkeylist))
              else unregister canonicalKey rest (idx(subkey := None))))"

definition delete ::
  "'e heap \<Rightarrow> ('e, 'v) SetKeyedMap \<Rightarrow> ref \<Rightarrow> bool \<times> ('e, 'v) SetKeyedMap" where
  "delete h m key =
     (case getCannonicalKey h m key of
        None \<Rightarrow> (False, m)
      | Some canonicalKey \<Rightarrow>
          (True, m\<lparr>subkeyToKeys := unregister canonicalKey (h ! canonicalKey) (subkeyToKeys m),
                    valueMap := Map_delete (valueMap m) canonicalKey\<rparr>))"

definition get :: "'e heap \<Rightarrow> ('e, 'v) SetKeyedMap \<Rightarrow> ref \<Rightarrow> 'v option" where
  "get h m key =
     (case getCannonicalKey h m key of
        None \<Rightarrow> None
      | Some canonicalKey \<Rightarrow> Map_get (valueMap m) canonicalKey)"

definition has :: "'e heap \<Rightarrow> ('e, 'v) SetKeyedMap \<Rightarrow> ref \<Rightarrow> bool" where
  "has h m key =
     (case getCannonicalKey h m key of
        None \<Rightarrow> False
      | Some canonicalKey \<Rightarrow> Map_has (valueMap m) canonicalKey)"

subsection \<open>Iteration\<close>

text \<open>
  \<open>keys()\<close> and \<open>entries()\<close> walk \<open>valueMap\<close> and yield a fresh copy of every key. The
  generators are modelled run to the end: the result is the heap after all copies were
  allocated and the list of what was yielded.
\<close>

fun keys_loop :: "ref list \<Rightarrow> 'e heap \<Rightarrow> 'e heap \<times> ref list" where
  "keys_loop [] h = (h, [])"
| "keys_loop (key # rest) h =
     (case createUserFacingKey h key of
        (h1, copy) \<Rightarrow> (case keys_loop rest h1 of (h2, out) \<Rightarrow> (h2, copy # out)))"

definition keys :: "'e heap \<Rightarrow> ('e, 'v) SetKeyedMap \<Rightarrow> 'e heap \<times> ref list" where
  "keys h m = keys_loop (map fst (valueMap m)) h"

fun entries_loop :: "(ref \<times> 'v) list \<Rightarrow> 'e heap \<Rightarrow> 'e heap \<times> (ref \<times> 'v) list" where
  "entries_loop [] h = (h, [])"
| "entries_loop ((key, v) # rest) h =
     (case createUserFacingKey h key of
        (h1, copy) \<Rightarrow> (case entries_loop rest h1 of (h2, out) \<Rightarrow> (h2, (copy, v) # out)))"

definition entries :: "'e heap \<Rightarrow> ('e, 'v) SetKeyedMap \<Rightarrow> 'e heap \<times> (ref \<times> 'v) list" where
  "entries h m = entries_loop (valueMap m) h"

subsection \<open>filter, mapOver, reduce, reduceRight\<close>

text \<open>
  Each loop pulls one entry from \<open>this.entries()\<close> (allocating the key copy), calls the
  callback and, for \<open>filter\<close> and \<open>mapOver\<close>, inserts into the result with \<open>set\<close>.
\<close>

fun filter_loop ::
  "('v \<Rightarrow> 'e list \<Rightarrow> bool) \<Rightarrow> (ref \<times> 'v) list \<Rightarrow> 'e heap \<Rightarrow> ('e, 'v) SetKeyedMap
     \<Rightarrow> 'e heap \<times> ('e, 'v) SetKeyedMap" where
  "filter_loop callbackfn [] h result = (h, result)"
| "filter_loop callbackfn ((ckey, v) # rest) h result =
     (case createUserFacingKey h ckey of
        (h1, key) \<Rightarrow>
          if callbackfn v (h1 ! key)
          then (case set_skm h1 result key v of
                  (h2, result') \<Rightarrow> filter_loop callbackfn rest h2 result')
          else filter_loop callbackfn rest h1 result)"

definition filter_skm ::
  "('v \<Rightarrow> 'e list \<Rightarrow> bool) \<Rightarrow> 'e heap \<Rightarrow> ('e, 'v) SetKeyedMap
     \<Rightarrow> 'e heap \<times> ('e, 'v) SetKeyedMap" where
  "filter_skm callbackfn h m = filter_loop callbackfn (valueMap m) h new_SetKeyedMap"

fun mapOver_loop ::
  "('v \<Rightarrow> 'e list \<Rightarrow> 't) \<Rightarrow> (ref \<times> 'v) list \<Rightarrow> 'e heap \<Rightarrow> ('e, 't) SetKeyedMap
     \<Rightarrow> 'e heap \<times> ('e, 't) SetKeyedMap" where
  "mapOver_loop callbackfn [] h result = (h, result)"
| "mapOver_loop callbackfn ((ckey, v) # rest) h result =
     (case createUserFacingKey h ckey of
        (h1, key) \<Rightarrow>
          (case set_skm h1 result key (callbackfn v (h1 ! key)) of
             (h2, result') \<Rightarrow> mapOver_loop callbackfn rest h2 result'))"

definition mapOver ::
  "('v \<Rightarrow> 'e list \<Rightarrow> 't) \<Rightarrow> 'e heap \<Rightarrow> ('e, 'v) SetKeyedMap
     \<Rightarrow> 'e heap \<times> ('e, 't) SetKeyedMap" where
  "mapOver callbackfn h m = mapOver_loop callbackfn (valueMap m) h new_SetKeyedMap"

fun reduce_loop ::
  "('t \<Rightarrow> 'v \<Rightarrow> 'e list \<Rightarrow> 't) \<Rightarrow> (ref \<times> 'v) list \<Rightarrow> 'e heap \<Rightarrow> 't \<Rightarrow> 'e heap \<times> 't" where
  "reduce_loop callbackfn [] h accumulator = (h, accumulator)"
| "reduce_loop callbackfn ((ckey, v) # rest) h accumulator =
     (case createUserFacingKey h ckey of
        (h1, key) \<Rightarrow> reduce_loop callbackfn rest h1 (callbackfn accumulator v (h1 ! key)))"

definition reduce ::
  "('t \<Rightarrow> 'v \<Rightarrow> 'e list \<Rightarrow> 't) \<Rightarrow> 't \<Rightarrow> 'e heap \<Rightarrow> ('e, 'v) SetKeyedMap \<Rightarrow> 'e heap \<times> 't" where
  "reduce callbackfn initialValue h m = reduce_loop callbackfn (valueMap m) h initialValue"

fun reduceRight_loop ::
  "('t \<Rightarrow> 'v \<Rightarrow> 'e list \<Rightarrow> 't) \<Rightarrow> (ref \<times> 'v) list \<Rightarrow> 'e heap \<Rightarrow> 't \<Rightarrow> 'e heap \<times> 't" where
  "reduceRight_loop callbackfn [] h accumulator = (h, accumulator)"
| "reduceRight_loop callbackfn ((ckey, v) # rest) h accumulator =
     (case createUserFacingKey h ckey of
        (h1, key) \<Rightarrow> reduceRight_loop callbackfn rest h1 (callbackfn accumulator v (h1 ! key)))"

definition reduceRight ::
  "('t \<Rightarrow> 'v \<Rightarrow> 'e list \<Rightarrow> 't) \<Rightarrow> 't \<Rightarrow> 'e heap \<Rightarrow> ('e, 'v) SetKeyedMap \<Rightarrow> 'e heap \<times> 't" where
  "reduceRight callbackfn initialValue h m =
     reduceRight_loop callbackfn (valueMap m) h initialValue"

subsection \<open>Reading a container through the heap\<close>

text \<open>The stored entries as (elements of the canonical key, value), in Store order.\<close>

definition entriesOf :: "'e heap \<Rightarrow> ('e, 'v) SetKeyedMap \<Rightarrow> ('e list \<times> 'v) list" where
  "entriesOf h m = map (\<lambda>(k, v). (h ! k, v)) (valueMap m)"

definition canon :: "('e, 'v) SetKeyedMap \<Rightarrow> ref set" where
  "canon m = set (map fst (valueMap m))"

subsection \<open>What a caller can do\<close>

text \<open>
  The canonical keys are created inside \<open>set\<close> and never returned: iteration hands out
  copies. A key a caller can pass is therefore an allocated \<open>Set\<close> object that is not one
  of the keys of \<open>valueMap\<close>. (This admits more objects than a caller really holds, such
  as the canonical key of an entry removed by \<open>delete\<close>; what is proved for every such key
  holds for the keys of a caller.)
\<close>

definition callerKey :: "'e heap \<Rightarrow> ('e, 'v) SetKeyedMap \<Rightarrow> ref \<Rightarrow> bool" where
  "callerKey h m key = (key < length h \<and> \<not> Map_has (valueMap m) key)"

text \<open>
  The calls of a client, on one container at a time: it builds \<open>Set\<close> objects and changes
  the ones it holds, and it calls the public methods. \<open>Filter\<close> and \<open>MapOver\<close> continue
  with the derived container. The read-only methods change nothing but the heap, where
  the key copies they hand to the caller are allocated; \<open>Keys\<close> and \<open>Entries\<close> stand for
  them. A call a client cannot make (a reference it does not hold) gives \<open>None\<close>.
\<close>

datatype ('e, 'v) call =
    NewSet "'e list"
  | Mutate ref "'e list"
  | Set ref 'v
  | Delete ref
  | Clear
  | Keys
  | Entries
  | Filter "'v \<Rightarrow> 'e list \<Rightarrow> bool"
  | MapOver "'v \<Rightarrow> 'e list \<Rightarrow> 'v"

fun step ::
  "('e, 'v) call \<Rightarrow> 'e heap \<times> ('e, 'v) SetKeyedMap \<Rightarrow> ('e heap \<times> ('e, 'v) SetKeyedMap) option" where
  "step (NewSet xs) (h, m) = (if distinct xs then Some (h @ [xs], m) else None)"
| "step (Mutate r xs) (h, m) =
     (if callerKey h m r \<and> distinct xs then Some (h[r := xs], m) else None)"
| "step (Set key v) (h, m) = (if callerKey h m key then Some (set_skm h m key v) else None)"
| "step (Delete key) (h, m) =
     (if callerKey h m key then Some (h, snd (delete h m key)) else None)"
| "step Clear (h, m) = Some (h, clear m)"
| "step Keys (h, m) = Some (fst (keys h m), m)"
| "step Entries (h, m) = Some (fst (entries h m), m)"
| "step (Filter callbackfn) (h, m) = Some (filter_skm callbackfn h m)"
| "step (MapOver callbackfn) (h, m) = Some (mapOver callbackfn h m)"

fun run ::
  "('e, 'v) call list \<Rightarrow> 'e heap \<times> ('e, 'v) SetKeyedMap \<Rightarrow> ('e heap \<times> ('e, 'v) SetKeyedMap) option" where
  "run [] s = Some s"
| "run (c # cs) s = (case step c s of None \<Rightarrow> None | Some s' \<Rightarrow> run cs s')"

text \<open>The start: no object allocated, a container fresh from its constructor.\<close>

definition init :: "'e heap \<times> ('e, 'v) SetKeyedMap" where
  "init = ([], new_SetKeyedMap)"

subsection \<open>The invariants of the data model\<close>

definition wf_heap :: "'e heap \<Rightarrow> bool" where
  "wf_heap h = (\<forall>xs \<in> set h. distinct xs)"

text \<open>A row exists for an element iff a stored key contains it, and holds exactly those keys.\<close>

definition index_consistent :: "'e heap \<Rightarrow> ('e, 'v) SetKeyedMap \<Rightarrow> bool" where
  "index_consistent h m =
     (\<forall>e. case subkeyToKeys m e of
             None \<Rightarrow> (\<forall>k \<in> canon m. e \<notin> set (h ! k))
           | Some ks \<Rightarrow> ks \<noteq> [] \<and> set ks = {k \<in> canon m. e \<in> set (h ! k)})"

text \<open>No two stored keys with elements have the same elements.\<close>

definition unique_canonical :: "'e heap \<Rightarrow> ('e, 'v) SetKeyedMap \<Rightarrow> bool" where
  "unique_canonical h m =
     (\<forall>k1 \<in> canon m. \<forall>k2 \<in> canon m. h ! k1 \<noteq> [] \<longrightarrow> set (h ! k1) = set (h ! k2) \<longrightarrow> k1 = k2)"

definition invariant :: "'e heap \<Rightarrow> ('e, 'v) SetKeyedMap \<Rightarrow> bool" where
  "invariant h m =
     (wf_heap h \<and> distinct (map fst (valueMap m)) \<and> (\<forall>k \<in> canon m. k < length h) \<and>
      index_consistent h m \<and> unique_canonical h m)"

subsection \<open>Notions used in the statements and proofs\<close>

text \<open>
  A list of element lists in which no list with elements has the same elements as a
  later one.
\<close>

fun distinct_membership :: "'e list list \<Rightarrow> bool" where
  "distinct_membership [] = True"
| "distinct_membership (xs # xss) =
     ((xs = [] \<or> list_all (\<lambda>ys. set ys \<noteq> set xs) xss) \<and> distinct_membership xss)"

text \<open>The calls that change the container they are made on.\<close>

fun mutating :: "('e, 'v) call \<Rightarrow> bool" where
  "mutating (Set key v) = True"
| "mutating (Delete key) = True"
| "mutating Clear = True"
| "mutating c = False"

text \<open>
  What the loops of \<open>filter\<close> and \<open>mapOver\<close> rely on when they are about to process the
  source entries \<open>es\<close> with the heap \<open>hc\<close> and the result \<open>res\<close> built so far.
\<close>

definition loop_ready ::
  "'e heap \<Rightarrow> ('e, 't) SetKeyedMap \<Rightarrow> (ref \<times> 'v) list \<Rightarrow> bool" where
  "loop_ready hc res es =
     (invariant hc res \<and> list_all (\<lambda>(k, v). k < length hc) es \<and>
      distinct_membership (map (\<lambda>(k, v). hc ! k) es) \<and>
      list_all (\<lambda>(k, v). hc ! k = [] \<or> (\<forall>c \<in> canon res. set (hc ! c) \<noteq> set (hc ! k))) es)"

text \<open>
  The calls after which the client still talks to the same container and that are not
  \<open>clear\<close>.
\<close>

fun keeps_entries :: "('e, 'v) call \<Rightarrow> bool" where
  "keeps_entries Clear = False"
| "keeps_entries (Filter callbackfn) = False"
| "keeps_entries (MapOver callbackfn) = False"
| "keeps_entries c = True"

text \<open>
  Changing the \<open>Set\<close> object \<open>r\<close> is something a caller can do and is invisible to the
  container: the container is the same, its entries read the same, and \<open>get\<close> and \<open>has\<close>
  answer the same for any key with the same elements as before.
\<close>

definition mutation_invisible :: "'e heap \<Rightarrow> ('e, 'v) SetKeyedMap \<Rightarrow> ref \<Rightarrow> bool" where
  "mutation_invisible h m r =
     (\<forall>xs. distinct xs \<longrightarrow>
        step (Mutate r xs) (h, m) = Some (h[r := xs], m) \<and>
        entriesOf (h[r := xs]) m = entriesOf h m \<and>
        (\<forall>key key'. callerKey h m key \<and> callerKey (h[r := xs]) m key' \<and>
                     h[r := xs] ! key' = h ! key \<longrightarrow>
           get (h[r := xs]) m key' = get h m key \<and> has (h[r := xs]) m key' = has h m key))"

text \<open>
  Equivalence-invariance of a state, for keys with elements: every stored entry whose key
  has elements is found by \<open>get\<close> and \<open>has\<close> with any key of a caller that has the same
  elements.
\<close>

definition equivalence_invariance :: "'e heap \<Rightarrow> ('e, 'v) SetKeyedMap \<Rightarrow> bool" where
  "equivalence_invariance h m =
     (\<forall>K xs v. callerKey h m K \<and> (xs, v) \<in> set (entriesOf h m) \<and> xs \<noteq> [] \<and>
               set (h ! K) = set xs \<longrightarrow>
        get h m K = Some v \<and> has h m K)"

text \<open>
  The container \<open>m1\<close> is isolated from \<open>m\<close>: they share no key object, and no sequence of
  \<open>set\<close>, \<open>delete\<close> and \<open>clear\<close> on \<open>m1\<close> changes what the entries of \<open>m\<close> read. (The
  fields of \<open>m\<close> themselves are not touched by calls on \<open>m1\<close>: each container has its own
  maps, made by its constructor.)
\<close>

definition isolated :: "'e heap \<Rightarrow> ('e, 't) SetKeyedMap \<Rightarrow> ('e, 'v) SetKeyedMap \<Rightarrow> bool" where
  "isolated h1 m1 m =
     (canon m1 \<inter> canon m = {} \<and>
      (\<forall>cs h2 m2. list_all mutating cs \<and> run cs (h1, m1) = Some (h2, m2) \<longrightarrow>
         entriesOf h2 m = entriesOf h1 m))"

section \<open>The JavaScript Map operations\<close>

lemma Map_has_iff: "Map_has kvs k \<longleftrightarrow> k \<in> set (map fst kvs)"
  by (induction kvs) auto

lemma Map_get_None: "Map_get kvs k = None \<longleftrightarrow> k \<notin> set (map fst kvs)"
proof (induction kvs)
  case Nil
  show ?case by simp
next
  case (Cons kv kvs)
  obtain a b where kv: "kv = (a, b)" by (cases kv)
  show ?case using Cons.IH by (cases "a = k") (simp_all add: kv del: set_map)
qed

lemma Map_set_keys: "set (map fst (Map_set kvs k v)) = insert k (set (map fst kvs))"
proof (induction kvs)
  case Nil
  show ?case by simp
next
  case (Cons kv kvs)
  obtain a b where kv: "kv = (a, b)" by (cases kv)
  show ?case using Cons.IH by (cases "a = k") (simp_all add: kv insert_commute)
qed

lemma Map_set_absent: "k \<notin> set (map fst kvs) \<Longrightarrow> Map_set kvs k v = kvs @ [(k, v)]"
  by (induction kvs) auto

lemma Map_set_map_fst_present:
  "k \<in> set (map fst kvs) \<Longrightarrow> map fst (Map_set kvs k v) = map fst kvs"
  by (induction kvs) (auto simp del: set_map)

lemma Map_set_present_length: "k \<in> set (map fst kvs) \<Longrightarrow> length (Map_set kvs k v) = length kvs"
  by (induction kvs) (auto simp del: set_map)

lemma Map_set_distinct: "distinct (map fst kvs) \<Longrightarrow> distinct (map fst (Map_set kvs k v))"
  by (cases "k \<in> set (map fst kvs)") (simp_all add: Map_set_map_fst_present Map_set_absent)

lemma Map_get_set: "Map_get (Map_set kvs k v) k' = (if k' = k then Some v else Map_get kvs k')"
  by (induction kvs) auto

lemma Map_delete_map_fst: "map fst (Map_delete kvs k) = remove1 k (map fst kvs)"
  by (induction kvs) auto

lemma Map_delete_keys:
  "distinct (map fst kvs) \<Longrightarrow> set (map fst (Map_delete kvs k)) = set (map fst kvs) - {k}"
  by (simp add: Map_delete_map_fst)

lemma Map_delete_distinct: "distinct (map fst kvs) \<Longrightarrow> distinct (map fst (Map_delete kvs k))"
  by (simp add: Map_delete_map_fst)

lemma Map_delete_length:
  "k \<in> set (map fst kvs) \<Longrightarrow> Suc (length (Map_delete kvs k)) = length kvs"
proof (induction kvs)
  case Nil
  then show ?case by simp
next
  case (Cons kv kvs)
  obtain a b where kv: "kv = (a, b)" by (cases kv)
  show ?case using Cons by (cases "a = k") (simp_all add: kv)
qed

lemma Map_get_delete:
  "distinct (map fst kvs) \<Longrightarrow>
   Map_get (Map_delete kvs k) k' = (if k' = k then None else Map_get kvs k')"
proof (induction kvs)
  case Nil
  then show ?case by simp
next
  case (Cons kv kvs)
  obtain a b where kv: "kv = (a, b)" by (cases kv)
  from Cons.prems kv have d: "distinct (map fst kvs)" and a: "a \<notin> set (map fst kvs)"
    by simp_all
  from a have an: "Map_get kvs a = None" using Map_get_None [of kvs a] by simp
  show ?case
  proof (cases "a = k")
    case True
    with an kv show ?thesis by simp
  next
    case False
    with Cons.IH [OF d] kv show ?thesis by (cases "k' = k") simp_all
  qed
qed

section \<open>The index loops\<close>

lemma register_row:
  "distinct xs \<Longrightarrow>
   register c xs idx e =
     (if e \<in> set xs then Some ((case idx e of None \<Rightarrow> [] | Some l \<Rightarrow> l) @ [c]) else idx e)"
  by (induction xs arbitrary: idx) (auto simp: Let_def)

lemma unregister_row:
  "distinct xs \<Longrightarrow>
   unregister c xs idx e =
     (if e \<in> set xs
      then (case idx e of
              None \<Rightarrow> None
            | Some l \<Rightarrow> if filter (\<lambda>k. k \<noteq> c) l \<noteq> [] then Some (filter (\<lambda>k. k \<noteq> c) l) else None)
      else idx e)"
  by (induction xs arbitrary: idx) (auto simp: Let_def split: option.splits)

section \<open>Resolving a candidate key\<close>

text \<open>
  The two ways out of \<open>getCannonicalKey\<close> before the search: a key of the value map
  resolves to itself, and any other key without elements resolves to nothing.
\<close>

lemma getCannonicalKey_stored:
  "Map_has (valueMap m) key \<Longrightarrow> getCannonicalKey h m key = Some key"
  by (simp add: getCannonicalKey_def)

lemma getCannonicalKey_empty:
  "\<not> Map_has (valueMap m) key \<Longrightarrow> h ! key = [] \<Longrightarrow> getCannonicalKey h m key = None"
  by (simp add: getCannonicalKey_def)

lemma getCannonicalKey_unfold:
  assumes "\<not> Map_has (valueMap m) key"
    and pcs_def: "pcs = map (\<lambda>keys. case keys of
                             None \<Rightarrow> []
                           | Some ks \<Rightarrow> filter (\<lambda>k. length (h ! k) = length (h ! key)) ks)
                  (map (\<lambda>subkey. subkeyToKeys m subkey) (h ! key))"
  shows "getCannonicalKey h m key =
           (case sort_key length pcs of
              [] \<Rightarrow> None
            | firstSubkeys # _ \<Rightarrow> find (\<lambda>k. \<forall>keys \<in> set pcs. k \<in> set keys) firstSubkeys)"
proof -
  have la: "(\<lambda>k. list_all (\<lambda>keys. k \<in> set keys) (sort_key length pcs)) =
            (\<lambda>k. \<forall>keys \<in> set pcs. k \<in> set keys)"
    by (simp add: list_all_iff)
  have "getCannonicalKey h m key =
           (case sort_key length pcs of
              [] \<Rightarrow> None
            | firstSubkeys # _ \<Rightarrow>
                find (\<lambda>k. list_all (\<lambda>keys. k \<in> set keys) (sort_key length pcs)) firstSubkeys)"
    unfolding getCannonicalKey_def Let_def pcs_def using assms(1) by (simp only: if_False)
  then show ?thesis unfolding la .
qed

lemma pcs_member:
  assumes "pcs = map (\<lambda>keys. case keys of
                             None \<Rightarrow> []
                           | Some ks \<Rightarrow> filter (\<lambda>k. length (h ! k) = n) ks)
                  (map (\<lambda>subkey. subkeyToKeys m subkey) xs)"
  shows "(\<forall>keys \<in> set pcs. c \<in> set keys) \<longleftrightarrow>
         (\<forall>e \<in> set xs. \<exists>ks. subkeyToKeys m e = Some ks \<and> c \<in> set ks \<and> length (h ! c) = n)"
proof -
  have pt: "c \<in> set (case subkeyToKeys m e of
                       None \<Rightarrow> []
                     | Some ks \<Rightarrow> filter (\<lambda>k. length (h ! k) = n) ks) \<longleftrightarrow>
            (\<exists>ks. subkeyToKeys m e = Some ks \<and> c \<in> set ks \<and> length (h ! c) = n)" for e
    by (cases "subkeyToKeys m e") auto
  have "(\<forall>keys \<in> set pcs. c \<in> set keys) \<longleftrightarrow>
        (\<forall>e \<in> set xs. c \<in> set (case subkeyToKeys m e of
                       None \<Rightarrow> []
                     | Some ks \<Rightarrow> filter (\<lambda>k. length (h ! k) = n) ks))"
    unfolding assms by simp
  then show ?thesis unfolding pt .
qed

lemma getCannonicalKey_Some_rows:
  assumes "\<not> Map_has (valueMap m) key" and "getCannonicalKey h m key = Some c"
  shows "h ! key \<noteq> []"
    and "\<And>e. e \<in> set (h ! key) \<Longrightarrow>
           \<exists>ks. subkeyToKeys m e = Some ks \<and> c \<in> set ks \<and> length (h ! c) = length (h ! key)"
proof -
  define pcs where "pcs = map (\<lambda>keys. case keys of
                             None \<Rightarrow> []
                           | Some ks \<Rightarrow> filter (\<lambda>k. length (h ! k) = length (h ! key)) ks)
                  (map (\<lambda>subkey. subkeyToKeys m subkey) (h ! key))"
  have u: "getCannonicalKey h m key =
           (case sort_key length pcs of
              [] \<Rightarrow> None
            | firstSubkeys # _ \<Rightarrow> find (\<lambda>k. \<forall>keys \<in> set pcs. k \<in> set keys) firstSubkeys)"
    by (rule getCannonicalKey_unfold [OF assms(1) pcs_def])
  from u assms(2) obtain f rest where s: "sort_key length pcs = f # rest"
    and fnd: "find (\<lambda>k. \<forall>keys \<in> set pcs. k \<in> set keys) f = Some c"
    by (cases "sort_key length pcs") simp_all
  from s have "length pcs \<noteq> 0"
    by (metis length_sort list.distinct(1) length_0_conv)
  then show "h ! key \<noteq> []" by (simp add: pcs_def)
  from fnd have all: "\<forall>keys \<in> set pcs. c \<in> set keys"
    by (auto simp: find_Some_iff)
  fix e assume "e \<in> set (h ! key)"
  with all pcs_member [OF pcs_def, of c]
  show "\<exists>ks. subkeyToKeys m e = Some ks \<and> c \<in> set ks \<and> length (h ! c) = length (h ! key)"
    by blast
qed

lemma getCannonicalKey_found:
  assumes "\<not> Map_has (valueMap m) key" and "h ! key \<noteq> []"
    and rows: "\<And>e. e \<in> set (h ! key) \<Longrightarrow>
           \<exists>ks. subkeyToKeys m e = Some ks \<and> c \<in> set ks \<and> length (h ! c) = length (h ! key)"
  shows "\<exists>c'. getCannonicalKey h m key = Some c'"
proof -
  define pcs where "pcs = map (\<lambda>keys. case keys of
                             None \<Rightarrow> []
                           | Some ks \<Rightarrow> filter (\<lambda>k. length (h ! k) = length (h ! key)) ks)
                  (map (\<lambda>subkey. subkeyToKeys m subkey) (h ! key))"
  have u: "getCannonicalKey h m key =
           (case sort_key length pcs of
              [] \<Rightarrow> None
            | firstSubkeys # _ \<Rightarrow> find (\<lambda>k. \<forall>keys \<in> set pcs. k \<in> set keys) firstSubkeys)"
    by (rule getCannonicalKey_unfold [OF assms(1) pcs_def])
  have all: "\<forall>keys \<in> set pcs. c \<in> set keys"
    using rows pcs_member [OF pcs_def, of c] by blast
  have "length (sort_key length pcs) \<noteq> 0"
    using assms(2) by (simp add: pcs_def)
  then obtain f rest where s: "sort_key length pcs = f # rest"
    by (cases "sort_key length pcs") simp_all
  then have "f \<in> set (sort_key length pcs)" by simp
  then have "f \<in> set pcs" by simp
  with all have "c \<in> set f" by blast
  with all have "find (\<lambda>k. \<forall>keys \<in> set pcs. k \<in> set keys) f \<noteq> None"
    by (auto simp: find_None_iff)
  with u s show ?thesis by auto
qed

section \<open>Resolution under the invariants\<close>

lemma Map_has_canon: "Map_has (valueMap m) k \<longleftrightarrow> k \<in> canon m"
  by (simp add: Map_has_iff canon_def)

lemma invariantD:
  assumes "invariant h m"
  shows "wf_heap h" and "distinct (map fst (valueMap m))" and "\<And>k. k \<in> canon m \<Longrightarrow> k < length h"
    and "index_consistent h m" and "unique_canonical h m"
  using assms by (simp_all add: invariant_def)

lemma wf_heap_nth: "wf_heap h \<Longrightarrow> k < length h \<Longrightarrow> distinct (h ! k)"
  by (simp add: wf_heap_def)

lemma index_row_Some:
  "index_consistent h m \<Longrightarrow> subkeyToKeys m e = Some ks \<Longrightarrow>
   ks \<noteq> [] \<and> set ks = {k \<in> canon m. e \<in> set (h ! k)}"
  unfolding index_consistent_def by (drule spec [of _ e]) simp

lemma index_row_None:
  "index_consistent h m \<Longrightarrow> subkeyToKeys m e = None \<Longrightarrow> k \<in> canon m \<Longrightarrow> e \<notin> set (h ! k)"
  unfolding index_consistent_def by (drule spec [of _ e]) simp

lemma index_row_ex:
  assumes "index_consistent h m" and "k \<in> canon m" and "e \<in> set (h ! k)"
  shows "\<exists>ks. subkeyToKeys m e = Some ks \<and> k \<in> set ks"
proof (cases "subkeyToKeys m e")
  case None
  with assms index_row_None show ?thesis by fastforce
next
  case (Some ks)
  with assms index_row_Some [OF assms(1) Some] show ?thesis by simp
qed

lemma same_elements_same_size:
  "distinct xs \<Longrightarrow> distinct ys \<Longrightarrow> set xs = set ys \<Longrightarrow> length xs = length ys"
  by (metis distinct_card)

lemma subset_same_size_eq:
  assumes "distinct xs" and "distinct ys" and "set xs \<subseteq> set ys" and "length ys = length xs"
  shows "set xs = set ys"
proof -
  have "card (set ys) = card (set xs)"
    using assms by (simp add: distinct_card)
  with assms(3) show ?thesis
    by (simp add: card_subset_eq)
qed

lemma getCannonicalKey_sound:
  assumes inv: "invariant h m" and key: "key < length h"
    and res: "getCannonicalKey h m key = Some c"
  shows "c \<in> canon m \<and> set (h ! c) = set (h ! key)"
proof (cases "Map_has (valueMap m) key")
  case True
  with res have "c = key" by (simp add: getCannonicalKey_stored)
  with True show ?thesis by (simp add: Map_has_canon)
next
  case False
  note rows = getCannonicalKey_Some_rows [OF False res]
  from rows(1) obtain e0 where e0: "e0 \<in> set (h ! key)" by (cases "h ! key") auto
  from rows(2) [OF e0] obtain ks0 where ks0: "subkeyToKeys m e0 = Some ks0" "c \<in> set ks0"
    and len: "length (h ! c) = length (h ! key)" by blast
  from index_row_Some [OF invariantD(4) [OF inv] ks0(1)] ks0(2) have c: "c \<in> canon m" by simp
  have sub: "set (h ! key) \<subseteq> set (h ! c)"
  proof
    fix e assume "e \<in> set (h ! key)"
    from rows(2) [OF this] obtain ks where ks: "subkeyToKeys m e = Some ks" "c \<in> set ks" by blast
    from index_row_Some [OF invariantD(4) [OF inv] ks(1)] ks(2) show "e \<in> set (h ! c)" by simp
  qed
  have dk: "distinct (h ! key)" by (rule wf_heap_nth [OF invariantD(1) [OF inv] key])
  have dc: "distinct (h ! c)"
    by (rule wf_heap_nth [OF invariantD(1) [OF inv] invariantD(3) [OF inv c]])
  from subset_same_size_eq [OF dk dc sub len] c show ?thesis by simp
qed

lemma getCannonicalKey_complete:
  assumes inv: "invariant h m" and key: "key < length h" and ne: "h ! key \<noteq> []"
    and c: "c \<in> canon m" and eq: "set (h ! c) = set (h ! key)"
  shows "getCannonicalKey h m key = Some c"
proof -
  have "\<exists>c'. getCannonicalKey h m key = Some c'"
  proof (cases "Map_has (valueMap m) key")
    case True
    then show ?thesis by (simp add: getCannonicalKey_stored)
  next
    case False
    have dk: "distinct (h ! key)" by (rule wf_heap_nth [OF invariantD(1) [OF inv] key])
    have dc: "distinct (h ! c)"
      by (rule wf_heap_nth [OF invariantD(1) [OF inv] invariantD(3) [OF inv c]])
    have len: "length (h ! c) = length (h ! key)"
      by (rule same_elements_same_size [OF dc dk eq])
    show ?thesis
    proof (rule getCannonicalKey_found [OF False ne])
      fix e assume "e \<in> set (h ! key)"
      with eq have "e \<in> set (h ! c)" by simp
      from index_row_ex [OF invariantD(4) [OF inv] c this] len
      show "\<exists>ks. subkeyToKeys m e = Some ks \<and> c \<in> set ks \<and> length (h ! c) = length (h ! key)"
        by blast
    qed
  qed
  then obtain c' where c': "getCannonicalKey h m key = Some c'" ..
  from getCannonicalKey_sound [OF inv key c'] have "c' \<in> canon m" "set (h ! c') = set (h ! key)"
    by simp_all
  moreover from ne eq have "h ! c \<noteq> []" by (metis set_empty)
  ultimately have "c = c'"
    using invariantD(5) [OF inv] c eq unfolding unique_canonical_def by metis
  with c' show ?thesis by simp
qed

section \<open>The operations keep the invariants\<close>

lemma index_consistent_alt:
  "index_consistent h m \<longleftrightarrow>
     (\<forall>e. subkeyToKeys m e \<noteq> Some [] \<and>
          (case subkeyToKeys m e of None \<Rightarrow> {} | Some l \<Rightarrow> set l) = {k \<in> canon m. e \<in> set (h ! k)})"
proof -
  have "(case subkeyToKeys m e of
           None \<Rightarrow> (\<forall>k \<in> canon m. e \<notin> set (h ! k))
         | Some ks \<Rightarrow> ks \<noteq> [] \<and> set ks = {k \<in> canon m. e \<in> set (h ! k)}) \<longleftrightarrow>
        (subkeyToKeys m e \<noteq> Some [] \<and>
          (case subkeyToKeys m e of None \<Rightarrow> {} | Some l \<Rightarrow> set l) = {k \<in> canon m. e \<in> set (h ! k)})"
    for e by (cases "subkeyToKeys m e") auto
  then show ?thesis unfolding index_consistent_def by simp
qed

lemma invariant_new: "wf_heap h \<Longrightarrow> invariant h new_SetKeyedMap"
  by (simp add: invariant_def new_SetKeyedMap_def canon_def index_consistent_def
      unique_canonical_def)

lemma invariant_clear: "invariant h m \<Longrightarrow> invariant h (clear m)"
  by (simp add: invariant_def clear_def canon_def index_consistent_def unique_canonical_def)

text \<open>Only the objects of the stored keys matter to the container.\<close>

lemma invariant_heap_change:
  assumes inv: "invariant h m" and wf: "wf_heap h'" and len: "length h \<le> length h'"
    and same: "\<And>k. k \<in> canon m \<Longrightarrow> h' ! k = h ! k"
  shows "invariant h' m"
proof -
  have ic: "index_consistent h' m"
    using invariantD(4) [OF inv] same unfolding index_consistent_alt by auto
  have uc: "unique_canonical h' m"
    using invariantD(5) [OF inv] same unfolding unique_canonical_def by auto
  have "\<And>k. k \<in> canon m \<Longrightarrow> k < length h'"
    using invariantD(3) [OF inv] len by fastforce
  with wf ic uc invariantD(2) [OF inv] show ?thesis by (simp add: invariant_def)
qed

lemma invariant_alloc:
  assumes inv: "invariant h m" and d: "distinct xs"
  shows "invariant (h @ [xs]) m"
proof (rule invariant_heap_change [OF inv])
  show "wf_heap (h @ [xs])" using invariantD(1) [OF inv] d by (simp add: wf_heap_def)
  show "length h \<le> length (h @ [xs])" by simp
  fix k assume "k \<in> canon m"
  then show "(h @ [xs]) ! k = h ! k" using invariantD(3) [OF inv] by (simp add: nth_append)
qed

lemma invariant_mutate:
  assumes inv: "invariant h m" and r: "r \<notin> canon m" and d: "distinct xs"
  shows "invariant (h[r := xs]) m"
proof (rule invariant_heap_change [OF inv])
  show "wf_heap (h[r := xs])"
    using invariantD(1) [OF inv] d set_update_subset_insert [of h r xs]
    by (auto simp: wf_heap_def)
  show "length h \<le> length (h[r := xs])" by simp
  fix k assume "k \<in> canon m"
  with r show "h[r := xs] ! k = h ! k" by (metis nth_list_update_neq)
qed

lemma set_skm_update:
  "getCannonicalKey h m key = Some c \<Longrightarrow>
   set_skm h m key v = (h, m\<lparr>valueMap := Map_set (valueMap m) c v\<rparr>)"
  by (simp add: set_skm_def)

lemma set_skm_insert:
  "getCannonicalKey h m key = None \<Longrightarrow>
   set_skm h m key v =
     (h @ [h ! key],
      m\<lparr>valueMap := Map_set (valueMap m) (length h) v,
        subkeyToKeys := register (length h) (h ! key) (subkeyToKeys m)\<rparr>)"
  by (simp add: set_skm_def createCanonicalKey_def newSetFrom_def)

lemma invariant_set_update:
  assumes inv: "invariant h m" and c: "c \<in> canon m"
  shows "invariant h (m\<lparr>valueMap := Map_set (valueMap m) c v\<rparr>)"
proof -
  have "map fst (Map_set (valueMap m) c v) = map fst (valueMap m)"
    using c by (simp add: Map_set_map_fst_present canon_def)
  then have ceq: "canon (m\<lparr>valueMap := Map_set (valueMap m) c v\<rparr>) = canon m"
    by (simp add: canon_def)
  have "distinct (map fst (valueMap (m\<lparr>valueMap := Map_set (valueMap m) c v\<rparr>)))"
    using invariantD(2) [OF inv] by (simp add: Map_set_distinct)
  moreover have "index_consistent h (m\<lparr>valueMap := Map_set (valueMap m) c v\<rparr>)"
    using invariantD(4) [OF inv] unfolding index_consistent_alt ceq by simp
  moreover have "unique_canonical h (m\<lparr>valueMap := Map_set (valueMap m) c v\<rparr>)"
    using invariantD(5) [OF inv] unfolding unique_canonical_def ceq by simp
  ultimately show ?thesis
    using invariantD(1,3) [OF inv] unfolding invariant_def ceq by simp
qed

lemma invariant_set_insert:
  assumes inv: "invariant h m" and key: "key < length h"
    and none: "getCannonicalKey h m key = None"
  shows "invariant (h @ [h ! key])
           (m\<lparr>valueMap := Map_set (valueMap m) (length h) v,
              subkeyToKeys := register (length h) (h ! key) (subkeyToKeys m)\<rparr>)"
    (is "invariant ?h' ?m'")
proof -
  let ?c = "length h" and ?xs = "h ! key"
  have dxs: "distinct ?xs" by (rule wf_heap_nth [OF invariantD(1) [OF inv] key])
  have cfresh: "?c \<notin> canon m" using invariantD(3) [OF inv] by blast
  have canon': "canon ?m' = insert ?c (canon m)"
    using Map_set_keys [of "valueMap m" ?c v] by (simp add: canon_def)
  have old: "?h' ! k = h ! k" if "k \<in> canon m" for k
    using invariantD(3) [OF inv that] by (simp add: nth_append)
  have new: "?h' ! ?c = ?xs" by simp
  have wf: "wf_heap ?h'" using invariantD(1) [OF inv] dxs by (simp add: wf_heap_def)
  have dist: "distinct (map fst (valueMap ?m'))"
    using invariantD(2) [OF inv] by (simp add: Map_set_distinct)
  have bound: "\<forall>k \<in> canon ?m'. k < length ?h'"
    using invariantD(3) [OF inv] canon' by (auto simp: less_Suc_eq)
  have ic: "index_consistent ?h' ?m'"
    unfolding index_consistent_alt
  proof (intro allI)
    fix e
    from invariantD(4) [OF inv]
    have o1: "subkeyToKeys m e \<noteq> Some []"
      and o2: "(case subkeyToKeys m e of None \<Rightarrow> {} | Some l \<Rightarrow> set l) = {k \<in> canon m. e \<in> set (h ! k)}"
      unfolding index_consistent_alt by simp_all
    have keys': "{k \<in> canon ?m'. e \<in> set (?h' ! k)} =
                 (if e \<in> set ?xs then insert ?c {k \<in> canon m. e \<in> set (h ! k)}
                  else {k \<in> canon m. e \<in> set (h ! k)})"
      unfolding canon' using old new cfresh by auto
    have row': "subkeyToKeys ?m' e =
                 (if e \<in> set ?xs
                  then Some ((case subkeyToKeys m e of None \<Rightarrow> [] | Some l \<Rightarrow> l) @ [?c])
                  else subkeyToKeys m e)"
      by (simp add: register_row [OF dxs])
    show "subkeyToKeys ?m' e \<noteq> Some [] \<and>
          (case subkeyToKeys ?m' e of None \<Rightarrow> {} | Some l \<Rightarrow> set l) = {k \<in> canon ?m'. e \<in> set (?h' ! k)}"
      unfolding keys' row' using o1 o2 by (cases "subkeyToKeys m e") auto
  qed
  have nomatch: "set (h ! k) \<noteq> set ?xs" if "k \<in> canon m" and "?xs \<noteq> []" for k
    using getCannonicalKey_complete [OF inv key that(2) that(1)] none by auto
  have uc: "unique_canonical ?h' ?m'"
    unfolding unique_canonical_def canon'
  proof (intro ballI impI)
    fix k1 k2
    assume k1: "k1 \<in> insert ?c (canon m)" and k2: "k2 \<in> insert ?c (canon m)"
      and ne: "?h' ! k1 \<noteq> []" and eq: "set (?h' ! k1) = set (?h' ! k2)"
    show "k1 = k2"
    proof (cases "k1 = ?c")
      case True
      show ?thesis
      proof (cases "k2 = ?c")
        case True
        with \<open>k1 = ?c\<close> show ?thesis by simp
      next
        case False
        with k2 have "k2 \<in> canon m" by simp
        with nomatch [OF this] old [OF this] ne eq True new show ?thesis by auto
      qed
    next
      case False
      with k1 have k1c: "k1 \<in> canon m" by simp
      show ?thesis
      proof (cases "k2 = ?c")
        case True
        from ne eq have "?h' ! k2 \<noteq> []" by (metis set_empty)
        with True new have "?xs \<noteq> []" by simp
        with nomatch [OF k1c] old [OF k1c] eq True new show ?thesis by auto
      next
        case False
        with k2 have k2c: "k2 \<in> canon m" by simp
        with k1c ne eq old invariantD(5) [OF inv] show ?thesis
          unfolding unique_canonical_def by metis
      qed
    qed
  qed
  from wf dist bound ic uc show ?thesis by (simp add: invariant_def)
qed

lemma callerKeyD:
  "callerKey h m key \<Longrightarrow> key < length h" "callerKey h m key \<Longrightarrow> key \<notin> canon m"
  by (simp_all add: callerKey_def Map_has_canon)

lemma invariant_set:
  assumes inv: "invariant h m" and key: "key < length h"
  shows "invariant (fst (set_skm h m key v)) (snd (set_skm h m key v))"
proof (cases "getCannonicalKey h m key")
  case None
  with invariant_set_insert [OF inv key None] show ?thesis by (simp add: set_skm_insert)
next
  case (Some c)
  from getCannonicalKey_sound [OF inv key Some] have "c \<in> canon m" by simp
  with invariant_set_update [OF inv this] Some show ?thesis by (simp add: set_skm_update)
qed

lemma delete_found:
  "getCannonicalKey h m key = Some c \<Longrightarrow>
   delete h m key =
     (True, m\<lparr>subkeyToKeys := unregister c (h ! c) (subkeyToKeys m),
              valueMap := Map_delete (valueMap m) c\<rparr>)"
  by (simp add: delete_def)

lemma delete_not_found: "getCannonicalKey h m key = None \<Longrightarrow> delete h m key = (False, m)"
  by (simp add: delete_def)

lemma invariant_delete_found:
  assumes inv: "invariant h m" and c: "c \<in> canon m"
  shows "invariant h (m\<lparr>subkeyToKeys := unregister c (h ! c) (subkeyToKeys m),
                        valueMap := Map_delete (valueMap m) c\<rparr>)"
    (is "invariant h ?m'")
proof -
  have dc: "distinct (h ! c)"
    by (rule wf_heap_nth [OF invariantD(1) [OF inv] invariantD(3) [OF inv c]])
  have canon': "canon ?m' = canon m - {c}"
    using Map_delete_keys [OF invariantD(2) [OF inv], of c] by (simp add: canon_def)
  have dist: "distinct (map fst (valueMap ?m'))"
    using invariantD(2) [OF inv] by (simp add: Map_delete_distinct)
  have bound: "\<forall>k \<in> canon ?m'. k < length h"
    using invariantD(3) [OF inv] canon' by auto
  have ic: "index_consistent h ?m'"
    unfolding index_consistent_alt
  proof (intro allI)
    fix e
    from invariantD(4) [OF inv]
    have o1: "subkeyToKeys m e \<noteq> Some []"
      and o2: "(case subkeyToKeys m e of None \<Rightarrow> {} | Some l \<Rightarrow> set l) = {k \<in> canon m. e \<in> set (h ! k)}"
      unfolding index_consistent_alt by simp_all
    have keys': "{k \<in> canon ?m'. e \<in> set (h ! k)} = {k \<in> canon m. e \<in> set (h ! k)} - {c}"
      unfolding canon' by auto
    have row': "subkeyToKeys ?m' e =
                 (if e \<in> set (h ! c)
                  then (case subkeyToKeys m e of
                          None \<Rightarrow> None
                        | Some l \<Rightarrow> if filter (\<lambda>k. k \<noteq> c) l \<noteq> []
                                    then Some (filter (\<lambda>k. k \<noteq> c) l) else None)
                  else subkeyToKeys m e)"
      by (simp add: unregister_row [OF dc])
    show "subkeyToKeys ?m' e \<noteq> Some [] \<and>
          (case subkeyToKeys ?m' e of None \<Rightarrow> {} | Some l \<Rightarrow> set l) = {k \<in> canon ?m'. e \<in> set (h ! k)}"
    proof (cases "subkeyToKeys m e")
      case None
      with o2 show ?thesis unfolding keys' row' by auto
    next
      case (Some l)
      with o2 have l: "set l = {k \<in> canon m. e \<in> set (h ! k)}" by simp
      have f: "set (filter (\<lambda>k. k \<noteq> c) l) = set l - {c}" by auto
      have fe: "filter (\<lambda>k. k \<noteq> c) l = [] \<Longrightarrow> set l - {c} = {}"
        using f by (metis set_empty)
      show ?thesis
      proof (cases "e \<in> set (h ! c)")
        case True
        with Some l f fe show ?thesis unfolding keys' row' by auto
      next
        case False
        then have "c \<notin> set l" using l by simp
        with False Some l o1 show ?thesis unfolding keys' row' by auto
      qed
    qed
  qed
  have uc: "unique_canonical h ?m'"
    using invariantD(5) [OF inv] unfolding unique_canonical_def canon' by blast
  from dist bound ic uc invariantD(1) [OF inv] show ?thesis by (simp add: invariant_def)
qed

lemma invariant_delete:
  assumes inv: "invariant h m" and key: "key < length h"
  shows "invariant h (snd (delete h m key))"
proof (cases "getCannonicalKey h m key")
  case None
  with inv show ?thesis by (simp add: delete_not_found)
next
  case (Some c)
  from getCannonicalKey_sound [OF inv key Some] have "c \<in> canon m" by simp
  with invariant_delete_found [OF inv this] Some show ?thesis by (simp add: delete_found)
qed

text \<open>Iteration only allocates copies of the stored keys.\<close>

lemma keys_loop_heap:
  "list_all (\<lambda>k. k < length h) ks \<Longrightarrow>
   keys_loop ks h = (h @ map (\<lambda>k. h ! k) ks, [length h ..< length h + length ks])"
proof (induction ks arbitrary: h)
  case Nil
  then show ?case by simp
next
  case (Cons k ks)
  from Cons.prems have k: "k < length h" and rest: "list_all (\<lambda>k. k < length h) ks" by simp_all
  from rest have rest': "list_all (\<lambda>k'. k' < length (h @ [h ! k])) ks"
    by (induction ks) (auto simp: less_Suc_eq)
  have same: "map (\<lambda>k'. (h @ [h ! k]) ! k') ks = map (\<lambda>k'. h ! k') ks"
    using rest by (induction ks) (auto simp: nth_append)
  have u: "[length h ..< length h + length (k # ks)] =
           length h # [length (h @ [h ! k]) ..< length (h @ [h ! k]) + length ks]"
    by (simp add: upt_conv_Cons del: upt_Suc)
  show ?case
    unfolding u using Cons.IH [OF rest'] same
    by (simp add: createUserFacingKey_def newSetFrom_def del: upt_Suc)
qed

lemma entries_loop_heap:
  "list_all (\<lambda>(k, v). k < length h) es \<Longrightarrow>
   entries_loop es h =
     (h @ map (\<lambda>(k, v). h ! k) es, zip [length h ..< length h + length es] (map snd es))"
proof (induction es arbitrary: h)
  case Nil
  then show ?case by simp
next
  case (Cons e es)
  obtain k v where e: "e = (k, v)" by (cases e)
  from Cons.prems e have k: "k < length h" and rest: "list_all (\<lambda>(k, v). k < length h) es"
    by simp_all
  from rest have rest': "list_all (\<lambda>(k', v). k' < length (h @ [h ! k])) es"
    by (induction es) (auto simp: less_Suc_eq)
  have same: "map (\<lambda>(k', v). (h @ [h ! k]) ! k') es = map (\<lambda>(k', v). h ! k') es"
    using rest by (induction es) (auto simp: nth_append)
  have u: "[length h ..< length h + length (e # es)] =
           length h # [length (h @ [h ! k]) ..< length (h @ [h ! k]) + length es]"
    by (simp add: upt_conv_Cons del: upt_Suc)
  show ?case
    unfolding u using Cons.IH [OF rest'] same
    by (simp add: e createUserFacingKey_def newSetFrom_def del: upt_Suc)
qed

lemma invariant_allocs:
  assumes inv: "invariant h m" and d: "list_all distinct xss"
  shows "invariant (h @ xss) m"
  using d
proof (induction xss rule: rev_induct)
  case Nil
  with inv show ?case by simp
next
  case (snoc xs xss)
  then have "invariant (h @ xss) m" and "distinct xs" by simp_all
  from invariant_alloc [OF this] show ?case by simp
qed

lemma canon_bounded_keys: "invariant h m \<Longrightarrow> list_all (\<lambda>k. k < length h) (map fst (valueMap m))"
  unfolding list_all_iff canon_def [symmetric] using invariantD(3) [of h m] by blast

lemma canon_bounded: "invariant h m \<Longrightarrow> list_all (\<lambda>(k, v). k < length h) (valueMap m)"
  using canon_bounded_keys [of h m] by (simp add: list_all_iff case_prod_beta)

lemma invariant_keys:
  assumes inv: "invariant h m"
  shows "invariant (fst (keys h m)) m"
proof -
  have "list_all distinct (map (\<lambda>k. h ! k) (map fst (valueMap m)))"
    using canon_bounded_keys [OF inv] invariantD(1) [OF inv]
    by (auto simp: list_all_iff wf_heap_def)
  from invariant_allocs [OF inv this] show ?thesis
    by (simp add: keys_def keys_loop_heap [OF canon_bounded_keys [OF inv]])
qed

lemma invariant_entries:
  assumes inv: "invariant h m"
  shows "invariant (fst (entries h m)) m"
proof -
  have "list_all distinct (map (\<lambda>(k, v). h ! k) (valueMap m))"
    using canon_bounded [OF inv] invariantD(1) [OF inv]
    by (auto simp: list_all_iff wf_heap_def)
  from invariant_allocs [OF inv this] show ?thesis
    by (simp add: entries_def entries_loop_heap [OF canon_bounded [OF inv]])
qed

section \<open>Lookup by elements\<close>

lemma Map_get_member:
  "distinct (map fst kvs) \<Longrightarrow> (k, v) \<in> set kvs \<Longrightarrow> Map_get kvs k = Some v"
proof (induction kvs)
  case Nil
  then show ?case by simp
next
  case (Cons kv kvs)
  obtain a b where kv: "kv = (a, b)" by (cases kv)
  show ?case
  proof (cases "a = k")
    case True
    with Cons.prems kv have "(k, v) \<notin> set kvs" by (metis distinct.simps(2) fst_conv image_eqI list.simps(9) set_map)
    with Cons.prems kv True show ?thesis by simp
  next
    case False
    with Cons kv show ?thesis by simp
  qed
qed

lemma entriesOf_member:
  "(xs, v) \<in> set (entriesOf h m) \<longleftrightarrow> (\<exists>c. (c, v) \<in> set (valueMap m) \<and> h ! c = xs)"
  by (auto simp: entriesOf_def)

lemma get_found:
  assumes inv: "invariant h m" and key: "key < length h" and ne: "h ! key \<noteq> []"
    and cv: "(c, v) \<in> set (valueMap m)" and eq: "set (h ! c) = set (h ! key)"
  shows "get h m key = Some v" and "has h m key"
proof -
  from cv have c: "c \<in> canon m" by (metis canon_def fst_conv image_eqI set_map)
  have res: "getCannonicalKey h m key = Some c"
    by (rule getCannonicalKey_complete [OF inv key ne c eq])
  from res Map_get_member [OF invariantD(2) [OF inv] cv] show "get h m key = Some v"
    by (simp add: get_def)
  from res c show "has h m key" by (simp add: has_def Map_has_canon)
qed

lemma get_not_found:
  assumes inv: "invariant h m" and key: "callerKey h m key"
    and no: "\<And>c. c \<in> canon m \<Longrightarrow> set (h ! c) \<noteq> set (h ! key)"
  shows "getCannonicalKey h m key = None" and "get h m key = None" and "\<not> has h m key"
proof -
  show n: "getCannonicalKey h m key = None"
  proof (cases "getCannonicalKey h m key")
    case None
    then show ?thesis .
  next
    case (Some c)
    from getCannonicalKey_sound [OF inv callerKeyD(1) [OF key] Some] no show ?thesis by blast
  qed
  then show "get h m key = None" and "\<not> has h m key" by (simp_all add: get_def has_def)
qed

section \<open>Building a derived container\<close>

lemma canon_member: "(k, v) \<in> set (valueMap m) \<Longrightarrow> k \<in> canon m"
  unfolding canon_def by (metis fst_conv image_eqI set_map)

lemma entriesOf_heap_change:
  assumes "\<And>k. k \<in> canon m \<Longrightarrow> h' ! k = h ! k"
  shows "entriesOf h' m = entriesOf h m"
  unfolding entriesOf_def
proof (rule map_cong [OF refl])
  fix e assume e: "e \<in> set (valueMap m)"
  obtain k v where kv: "e = (k, v)" by (cases e)
  with e assms [OF canon_member [of k v m]] show "(case e of (k, v) \<Rightarrow> (h' ! k, v)) = (case e of (k, v) \<Rightarrow> (h ! k, v))"
    by simp
qed

text \<open>
  One round of the loops of \<open>filter\<close> and \<open>mapOver\<close>: the key copy is allocated and
  inserted. When no stored key of the result has the elements of the copy, a new entry is
  appended.
\<close>

lemma copy_then_set:
  assumes inv: "invariant hc res" and k: "k < length hc"
    and sep: "hc ! k \<noteq> [] \<Longrightarrow> \<forall>c \<in> canon res. set (hc ! c) \<noteq> set (hc ! k)"
  shows "set_skm (hc @ [hc ! k]) res (length hc) v =
           (hc @ [hc ! k, hc ! k],
            res\<lparr>valueMap := valueMap res @ [(Suc (length hc), v)],
                subkeyToKeys := register (Suc (length hc)) (hc ! k) (subkeyToKeys res)\<rparr>)"
proof -
  let ?h1 = "hc @ [hc ! k]"
  have d: "distinct (hc ! k)" by (rule wf_heap_nth [OF invariantD(1) [OF inv] k])
  have inv1: "invariant ?h1 res" by (rule invariant_alloc [OF inv d])
  have nc: "length hc \<notin> canon res" using invariantD(3) [OF inv] by blast
  then have ck: "callerKey ?h1 res (length hc)" by (simp add: callerKey_def Map_has_canon)
  have none: "getCannonicalKey ?h1 res (length hc) = None"
  proof (cases "hc ! k = []")
    case True
    with nc show ?thesis by (simp add: getCannonicalKey_empty Map_has_canon)
  next
    case False
    show ?thesis
    proof (rule get_not_found(1) [OF inv1 ck])
      fix c assume c: "c \<in> canon res"
      with invariantD(3) [OF inv c] sep [OF False]
      show "set (?h1 ! c) \<noteq> set (?h1 ! length hc)" by (simp add: nth_append)
    qed
  qed
  have "Suc (length hc) \<notin> canon res" using invariantD(3) [OF inv] by fastforce
  then have "Map_set (valueMap res) (Suc (length hc)) v = valueMap res @ [(Suc (length hc), v)]"
    by (simp add: Map_set_absent canon_def)
  with set_skm_insert [OF none, of v] show ?thesis by simp
qed

lemma copy_then_set_facts:
  assumes inv: "invariant hc res" and k: "k < length hc"
    and sep: "hc ! k \<noteq> [] \<Longrightarrow> \<forall>c \<in> canon res. set (hc ! c) \<noteq> set (hc ! k)"
    and r: "set_skm (hc @ [hc ! k]) res (length hc) v = (h2, res2)"
  shows "invariant h2 res2" and "h2 = hc @ [hc ! k, hc ! k]"
    and "entriesOf h2 res2 = entriesOf hc res @ [(hc ! k, v)]"
    and "canon res2 = insert (Suc (length hc)) (canon res)"
proof -
  have d: "distinct (hc ! k)" by (rule wf_heap_nth [OF invariantD(1) [OF inv] k])
  have inv1: "invariant (hc @ [hc ! k]) res" by (rule invariant_alloc [OF inv d])
  from invariant_set [OF inv1, of "length hc" v] r show "invariant h2 res2" by simp
  from copy_then_set [OF inv k sep, of v] r
  have h2: "h2 = hc @ [hc ! k, hc ! k]"
    and res2: "res2 = res\<lparr>valueMap := valueMap res @ [(Suc (length hc), v)],
                subkeyToKeys := register (Suc (length hc)) (hc ! k) (subkeyToKeys res)\<rparr>"
    by simp_all
  show "h2 = hc @ [hc ! k, hc ! k]" by (rule h2)
  have "entriesOf h2 res = entriesOf hc res"
    by (rule entriesOf_heap_change) (use invariantD(3) [OF inv] h2 in \<open>simp add: nth_append\<close>)
  then show "entriesOf h2 res2 = entriesOf hc res @ [(hc ! k, v)]"
    unfolding res2 by (simp add: entriesOf_def h2 nth_append)
  show "canon res2 = insert (Suc (length hc)) (canon res)"
    unfolding res2 by (simp add: canon_def)
qed

lemma contents_agree:
  assumes "list_all (\<lambda>(k, v). k < length hc) es" and "\<forall>r < length hc. h2 ! r = hc ! r"
  shows "map (\<lambda>(k, v). h2 ! k) es = map (\<lambda>(k, v). hc ! k) es"
    and "map (\<lambda>(k, v). (h2 ! k, v)) es = map (\<lambda>(k, v). (hc ! k, v)) es"
  using assms by (induction es) auto

lemma loop_ready_skip:
  assumes "loop_ready hc res ((k, v) # rest)"
  shows "loop_ready (hc @ [hc ! k]) res rest"
proof -
  from assms have inv: "invariant hc res" and k: "k < length hc"
    and b: "list_all (\<lambda>(k, v). k < length hc) rest"
    and dm: "distinct_membership (map (\<lambda>(k, v). hc ! k) rest)"
    and sep: "list_all (\<lambda>(k, v). hc ! k = [] \<or> (\<forall>c \<in> canon res. set (hc ! c) \<noteq> set (hc ! k))) rest"
    by (simp_all add: loop_ready_def)
  let ?h1 = "hc @ [hc ! k]"
  have d: "distinct (hc ! k)" by (rule wf_heap_nth [OF invariantD(1) [OF inv] k])
  have inv1: "invariant ?h1 res" by (rule invariant_alloc [OF inv d])
  have b1: "list_all (\<lambda>(k, v). k < length ?h1) rest"
    using b by (auto simp: list_all_iff)
  have ag: "\<forall>r < length hc. ?h1 ! r = hc ! r" by (simp add: nth_append)
  have dm1: "distinct_membership (map (\<lambda>(k, v). ?h1 ! k) rest)"
    unfolding contents_agree(1) [OF b ag] by (rule dm)
  have sep1: "list_all (\<lambda>(k, v). ?h1 ! k = [] \<or> (\<forall>c \<in> canon res. set (?h1 ! c) \<noteq> set (?h1 ! k))) rest"
    unfolding list_all_iff
  proof
    fix e assume e: "e \<in> set rest"
    obtain k' v' where kv: "e = (k', v')" by (cases e)
    from b e kv have k': "k' < length hc" by (auto simp: list_all_iff)
    from sep e kv have s: "hc ! k' = [] \<or> (\<forall>c \<in> canon res. set (hc ! c) \<noteq> set (hc ! k'))"
      by (auto simp: list_all_iff)
    have "\<forall>c \<in> canon res. ?h1 ! c = hc ! c" using invariantD(3) [OF inv] by (simp add: nth_append)
    with s k' show "case e of (k, v) \<Rightarrow> ?h1 ! k = [] \<or> (\<forall>c \<in> canon res. set (?h1 ! c) \<noteq> set (?h1 ! k))"
      by (simp add: kv nth_append)
  qed
  from inv1 b1 dm1 sep1 show ?thesis by (simp add: loop_ready_def)
qed

lemma loop_ready_head:
  assumes "loop_ready hc res ((k, v) # rest)"
  shows "invariant hc res" and "k < length hc"
    and "hc ! k \<noteq> [] \<Longrightarrow> \<forall>c \<in> canon res. set (hc ! c) \<noteq> set (hc ! k)"
  using assms by (simp_all add: loop_ready_def)

lemma loop_ready_take:
  assumes lr: "loop_ready hc res ((k, v) # rest)"
    and r: "set_skm (hc @ [hc ! k]) res (length hc) v' = (h2, res2)"
  shows "loop_ready h2 res2 rest"
proof -
  note hd = loop_ready_head [OF lr]
  note facts = copy_then_set_facts [OF hd r]
  from lr have b: "list_all (\<lambda>(k, v). k < length hc) rest"
    and dm: "distinct_membership (map (\<lambda>(k, v). hc ! k) rest)"
    and fresh: "hc ! k = [] \<or> list_all (\<lambda>ys. set ys \<noteq> set (hc ! k)) (map (\<lambda>(k, v). hc ! k) rest)"
    and sep: "list_all (\<lambda>(k, v). hc ! k = [] \<or> (\<forall>c \<in> canon res. set (hc ! c) \<noteq> set (hc ! k))) rest"
    by (simp_all add: loop_ready_def)
  have b2: "list_all (\<lambda>(k, v). k < length h2) rest"
    using b by (auto simp: list_all_iff facts(2))
  have ag: "\<forall>r < length hc. h2 ! r = hc ! r" by (simp add: facts(2) nth_append)
  have dm2: "distinct_membership (map (\<lambda>(k, v). h2 ! k) rest)"
    unfolding contents_agree(1) [OF b ag] by (rule dm)
  have sep2: "list_all (\<lambda>(k, v). h2 ! k = [] \<or> (\<forall>c \<in> canon res2. set (h2 ! c) \<noteq> set (h2 ! k))) rest"
    unfolding list_all_iff
  proof
    fix e assume e: "e \<in> set rest"
    obtain k' v' where kv: "e = (k', v')" by (cases e)
    from b e kv have k': "k' < length hc" by (auto simp: list_all_iff)
    then have c2: "h2 ! k' = hc ! k'" by (simp add: facts(2) nth_append)
    from sep e kv have s: "hc ! k' = [] \<or> (\<forall>c \<in> canon res. set (hc ! c) \<noteq> set (hc ! k'))"
      by (auto simp: list_all_iff)
    have old: "\<forall>c \<in> canon res. h2 ! c = hc ! c"
      using invariantD(3) [OF hd(1)] by (simp add: facts(2) nth_append)
    have new: "h2 ! Suc (length hc) = hc ! k" by (simp add: facts(2) nth_append)
    have "hc ! k' = [] \<or> (\<forall>c \<in> canon res2. set (h2 ! c) \<noteq> set (hc ! k'))"
    proof (cases "hc ! k' = []")
      case True
      then show ?thesis by simp
    next
      case False
      with s have o: "\<forall>c \<in> canon res. set (hc ! c) \<noteq> set (hc ! k')" by simp
      have "set (hc ! k) \<noteq> set (hc ! k')"
      proof (cases "hc ! k = []")
        case True
        with False show ?thesis by simp
      next
        case False
        with fresh e kv show ?thesis by (auto simp: list_all_iff)
      qed
      have "set (h2 ! c) \<noteq> set (hc ! k')" if "c \<in> canon res2" for c
      proof (cases "c = Suc (length hc)")
        case True
        with new \<open>set (hc ! k) \<noteq> set (hc ! k')\<close> show ?thesis by simp
      next
        case False
        with that facts(4) have "c \<in> canon res" by simp
        with o old show ?thesis by simp
      qed
      then show ?thesis by blast
    qed
    with c2 show "case e of (k, v) \<Rightarrow> h2 ! k = [] \<or> (\<forall>c \<in> canon res2. set (h2 ! c) \<noteq> set (h2 ! k))"
      by (simp add: kv)
  qed
  from facts(1) b2 dm2 sep2 show ?thesis by (simp add: loop_ready_def)
qed

lemma filter_loop_result:
  assumes "loop_ready hc res es" and "filter_loop f es hc res = (h', res')"
  shows "invariant h' res' \<and> (\<exists>ext. h' = hc @ ext) \<and>
         entriesOf h' res' =
           entriesOf hc res @ filter (\<lambda>(xs, v). f v xs) (map (\<lambda>(k, v). (hc ! k, v)) es) \<and>
         (\<forall>c \<in> canon res'. c \<in> canon res \<or> length hc \<le> c)"
  using assms
proof (induction es arbitrary: hc res)
  case Nil
  then show ?case by (simp add: loop_ready_def)
next
  case (Cons e es)
  obtain k v where e: "e = (k, v)" by (cases e)
  from Cons.prems(1) e have lr: "loop_ready hc res ((k, v) # es)" by simp
  note hd = loop_ready_head [OF lr]
  from lr have b: "list_all (\<lambda>(k, v). k < length hc) es" by (simp add: loop_ready_def)
  show ?case
  proof (cases "f v (hc ! k)")
    case False
    let ?h1 = "hc @ [hc ! k]"
    from Cons.prems(2) e False have run: "filter_loop f es ?h1 res = (h', res')"
      by (simp add: createUserFacingKey_def newSetFrom_def)
    have ag: "\<forall>r < length hc. ?h1 ! r = hc ! r" by (simp add: nth_append)
    have e1: "entriesOf ?h1 res = entriesOf hc res"
      by (rule entriesOf_heap_change) (use invariantD(3) [OF hd(1)] in \<open>simp add: nth_append\<close>)
    from Cons.IH [OF loop_ready_skip [OF lr] run]
    have i1: "invariant h' res'" and i2: "\<exists>ext. h' = ?h1 @ ext"
      and i3: "entriesOf h' res' =
           entriesOf ?h1 res @ filter (\<lambda>(xs, v). f v xs) (map (\<lambda>(k, v). (?h1 ! k, v)) es)"
      and i4: "\<forall>c \<in> canon res'. c \<in> canon res \<or> length ?h1 \<le> c"
      by blast+
    from i2 have j2: "\<exists>ext. h' = hc @ ext" by auto
    from i3 have j3: "entriesOf h' res' =
           entriesOf hc res @ filter (\<lambda>(xs, v). f v xs) (map (\<lambda>(k, v). (hc ! k, v)) (e # es))"
      unfolding e1 contents_agree(2) [OF b ag] using False by (simp add: e)
    from i4 have j4: "\<forall>c \<in> canon res'. c \<in> canon res \<or> length hc \<le> c" by auto
    from i1 j2 j3 j4 show ?thesis by blast
  next
    case True
    obtain h2 res2 where r: "set_skm (hc @ [hc ! k]) res (length hc) v = (h2, res2)"
      by (cases "set_skm (hc @ [hc ! k]) res (length hc) v")
    with Cons.prems(2) e True have run: "filter_loop f es h2 res2 = (h', res')"
      by (simp add: createUserFacingKey_def newSetFrom_def)
    note facts = copy_then_set_facts [OF hd r]
    have ag: "\<forall>r < length hc. h2 ! r = hc ! r" by (simp add: facts(2) nth_append)
    from Cons.IH [OF loop_ready_take [OF lr r] run]
    have i1: "invariant h' res'" and i2: "\<exists>ext. h' = h2 @ ext"
      and i3: "entriesOf h' res' =
           entriesOf h2 res2 @ filter (\<lambda>(xs, v). f v xs) (map (\<lambda>(k, v). (h2 ! k, v)) es)"
      and i4: "\<forall>c \<in> canon res'. c \<in> canon res2 \<or> length h2 \<le> c"
      by blast+
    from i2 have j2: "\<exists>ext. h' = hc @ ext" by (auto simp: facts(2))
    from i3 have j3: "entriesOf h' res' =
           entriesOf hc res @ filter (\<lambda>(xs, v). f v xs) (map (\<lambda>(k, v). (hc ! k, v)) (e # es))"
      unfolding contents_agree(2) [OF b ag] using True facts(3) by (simp add: e)
    from i4 have j4: "\<forall>c \<in> canon res'. c \<in> canon res \<or> length hc \<le> c"
      by (auto simp: facts(2) facts(4))
    from i1 j2 j3 j4 show ?thesis by blast
  qed
qed

lemma mapOver_loop_result:
  assumes "loop_ready hc res es" and "mapOver_loop f es hc res = (h', res')"
  shows "invariant h' res' \<and> (\<exists>ext. h' = hc @ ext) \<and>
         entriesOf h' res' = entriesOf hc res @ map (\<lambda>(k, v). (hc ! k, f v (hc ! k))) es \<and>
         (\<forall>c \<in> canon res'. c \<in> canon res \<or> length hc \<le> c)"
  using assms
proof (induction es arbitrary: hc res)
  case Nil
  then show ?case by (simp add: loop_ready_def)
next
  case (Cons e es)
  obtain k v where e: "e = (k, v)" by (cases e)
  from Cons.prems(1) e have lr: "loop_ready hc res ((k, v) # es)" by simp
  note hd = loop_ready_head [OF lr]
  from lr have b: "list_all (\<lambda>(k, v). k < length hc) es" by (simp add: loop_ready_def)
  obtain h2 res2 where r: "set_skm (hc @ [hc ! k]) res (length hc) (f v (hc ! k)) = (h2, res2)"
    by (cases "set_skm (hc @ [hc ! k]) res (length hc) (f v (hc ! k))")
  with Cons.prems(2) e have run: "mapOver_loop f es h2 res2 = (h', res')"
    by (simp add: createUserFacingKey_def newSetFrom_def)
  note facts = copy_then_set_facts [OF hd r]
  have ag: "\<forall>r < length hc. h2 ! r = hc ! r" by (simp add: facts(2) nth_append)
  have cont: "map (\<lambda>(k, v). (h2 ! k, f v (h2 ! k))) es = map (\<lambda>(k, v). (hc ! k, f v (hc ! k))) es"
    using b ag by (induction es) auto
  from Cons.IH [OF loop_ready_take [OF lr r] run]
  have i1: "invariant h' res'" and i2: "\<exists>ext. h' = h2 @ ext"
    and i3: "entriesOf h' res' = entriesOf h2 res2 @ map (\<lambda>(k, v). (h2 ! k, f v (h2 ! k))) es"
    and i4: "\<forall>c \<in> canon res'. c \<in> canon res2 \<or> length h2 \<le> c"
    by blast+
  from i2 have j2: "\<exists>ext. h' = hc @ ext" by (auto simp: facts(2))
  from i3 have j3: "entriesOf h' res' =
         entriesOf hc res @ map (\<lambda>(k, v). (hc ! k, f v (hc ! k))) (e # es)"
    unfolding cont using facts(3) by (simp add: e)
  from i4 have j4: "\<forall>c \<in> canon res'. c \<in> canon res \<or> length hc \<le> c"
    by (auto simp: facts(2) facts(4))
  from i1 j2 j3 j4 show ?case by blast
qed

lemma stored_distinct_membership:
  assumes uc: "unique_canonical h m"
  shows "distinct (map fst es) \<Longrightarrow> set (map fst es) \<subseteq> canon m \<Longrightarrow>
         distinct_membership (map (\<lambda>(k, v). h ! k) es)"
proof (induction es)
  case Nil
  show ?case by simp
next
  case (Cons e es)
  obtain k v where e: "e = (k, v)" by (cases e)
  from Cons.prems e have k: "k \<in> canon m" and kn: "k \<notin> set (map fst es)"
    and d: "distinct (map fst es)" and sub: "set (map fst es) \<subseteq> canon m"
    by simp_all
  have "h ! k = [] \<or> list_all (\<lambda>ys. set ys \<noteq> set (h ! k)) (map (\<lambda>(k, v). h ! k) es)"
  proof (cases "h ! k = []")
    case True
    then show ?thesis by simp
  next
    case False
    have "set (h ! k') \<noteq> set (h ! k)" if "k' \<in> set (map fst es)" for k'
    proof
      assume eq: "set (h ! k') = set (h ! k)"
      from that sub have "k' \<in> canon m" by blast
      with uc k False eq have "k = k'" unfolding unique_canonical_def by metis
      with that kn show False by simp
    qed
    then have "list_all (\<lambda>ys. set ys \<noteq> set (h ! k)) (map (\<lambda>k. h ! k) (map fst es))"
      by (simp add: list_all_iff)
    then show ?thesis by (simp add: comp_def case_prod_unfold)
  qed
  with Cons.IH [OF d sub] show ?case by (simp add: e)
qed

lemma loop_ready_start:
  assumes inv: "invariant h m"
  shows "loop_ready h new_SetKeyedMap (valueMap m)"
proof -
  have "invariant h new_SetKeyedMap" by (rule invariant_new [OF invariantD(1) [OF inv]])
  moreover have "distinct_membership (map (\<lambda>(k, v). h ! k) (valueMap m))"
    by (rule stored_distinct_membership [OF invariantD(5) [OF inv] invariantD(2) [OF inv]])
       (simp add: canon_def)
  moreover have "canon new_SetKeyedMap = {}" by (simp add: canon_def new_SetKeyedMap_def)
  ultimately show ?thesis
    using canon_bounded [OF inv] by (auto simp: loop_ready_def list_all_iff)
qed

lemma entriesOf_new: "entriesOf h new_SetKeyedMap = []"
  by (simp add: entriesOf_def new_SetKeyedMap_def)

lemma filter_skm_result:
  assumes inv: "invariant h m" and r: "filter_skm f h m = (h', m')"
  shows "invariant h' m'" and "\<exists>ext. h' = h @ ext"
    and "entriesOf h' m' = filter (\<lambda>(xs, v). f v xs) (entriesOf h m)"
    and "canon m' \<inter> canon m = {}"
proof -
  from r have "filter_loop f (valueMap m) h new_SetKeyedMap = (h', m')" by (simp add: filter_skm_def)
  note res = filter_loop_result [OF loop_ready_start [OF inv] this]
  from res show "invariant h' m'" and "\<exists>ext. h' = h @ ext" by blast+
  from res show "entriesOf h' m' = filter (\<lambda>(xs, v). f v xs) (entriesOf h m)"
    by (simp add: entriesOf_new) (simp add: entriesOf_def)
  from res have "\<forall>c \<in> canon m'. length h \<le> c" by (simp add: canon_def new_SetKeyedMap_def)
  with invariantD(3) [OF inv] show "canon m' \<inter> canon m = {}" by fastforce
qed

lemma mapOver_result:
  assumes inv: "invariant h m" and r: "mapOver f h m = (h', m')"
  shows "invariant h' m'" and "\<exists>ext. h' = h @ ext"
    and "entriesOf h' m' = map (\<lambda>(xs, v). (xs, f v xs)) (entriesOf h m)"
    and "canon m' \<inter> canon m = {}"
proof -
  from r have "mapOver_loop f (valueMap m) h new_SetKeyedMap = (h', m')" by (simp add: mapOver_def)
  note res = mapOver_loop_result [OF loop_ready_start [OF inv] this]
  from res show "invariant h' m'" and "\<exists>ext. h' = h @ ext" by blast+
  from res show "entriesOf h' m' = map (\<lambda>(xs, v). (xs, f v xs)) (entriesOf h m)"
    by (simp add: entriesOf_new) (simp add: entriesOf_def comp_def case_prod_beta)
  from res have "\<forall>c \<in> canon m'. length h \<le> c" by (simp add: canon_def new_SetKeyedMap_def)
  with invariantD(3) [OF inv] show "canon m' \<inter> canon m = {}" by fastforce
qed

section \<open>Every state a client can reach satisfies the invariants\<close>


lemma step_invariant:
  assumes inv: "invariant h m" and s: "step c (h, m) = Some (h', m')"
  shows "invariant h' m'"
proof (cases c)
  case (NewSet xs)
  with s inv show ?thesis by (auto simp: invariant_alloc split: if_splits)
next
  case (Mutate r xs)
  with s inv show ?thesis by (auto simp: invariant_mutate callerKey_def Map_has_canon split: if_splits)
next
  case (Set key v)
  with s invariant_set [OF inv, of key v] show ?thesis
    by (auto simp: callerKey_def split: if_splits)
next
  case (Delete key)
  with s invariant_delete [OF inv, of key] show ?thesis
    by (auto simp: callerKey_def split: if_splits)
next
  case Clear
  with s inv show ?thesis by (auto simp: invariant_clear)
next
  case Keys
  with s invariant_keys [OF inv] show ?thesis by auto
next
  case Entries
  with s invariant_entries [OF inv] show ?thesis by auto
next
  case (Filter f)
  with s filter_skm_result(1) [OF inv] show ?thesis by auto
next
  case (MapOver f)
  with s mapOver_result(1) [OF inv] show ?thesis by auto
qed

lemma run_invariant:
  "invariant h m \<Longrightarrow> run cs (h, m) = Some (h', m') \<Longrightarrow> invariant h' m'"
proof (induction cs arbitrary: h m)
  case Nil
  then show ?case by simp
next
  case (Cons c cs)
  from Cons.prems(2) obtain h1 m1 where s: "step c (h, m) = Some (h1, m1)"
    and r: "run cs (h1, m1) = Some (h', m')"
    by (cases "step c (h, m)") auto
  from Cons.IH [OF step_invariant [OF Cons.prems(1) s] r] show ?case .
qed

lemma reachable_invariant: "run cs init = Some (h, m) \<Longrightarrow> invariant h m"
  using run_invariant [OF invariant_new, of "[]" cs h m] by (simp add: init_def wf_heap_def)

section \<open>What \<open>set\<close> does to a state\<close>

lemma set_skm_cases:
  assumes inv: "invariant h m" and key: "key < length h" and r: "set_skm h m key v = (h', m')"
  obtains (update) c where "getCannonicalKey h m key = Some c" and "c \<in> canon m"
      and "set (h ! c) = set (h ! key)" and "h' = h"
      and "m' = m\<lparr>valueMap := Map_set (valueMap m) c v\<rparr>" and "canon m' = canon m"
      and "size_skm m' = size_skm m"
    | (insert) "getCannonicalKey h m key = None" and "h' = h @ [h ! key]"
      and "valueMap m' = valueMap m @ [(length h, v)]"
      and "canon m' = insert (length h) (canon m)"
      and "size_skm m' = Suc (size_skm m)"
proof (cases "getCannonicalKey h m key")
  case None
  have nc: "length h \<notin> canon m" using invariantD(3) [OF inv] by blast
  then have vm: "Map_set (valueMap m) (length h) v = valueMap m @ [(length h, v)]"
    by (simp add: Map_set_absent canon_def)
  from r set_skm_insert [OF None, of v] vm
  have "h' = h @ [h ! key]" and "valueMap m' = valueMap m @ [(length h, v)]" by auto
  moreover from this have "canon m' = insert (length h) (canon m)" by (simp add: canon_def)
  moreover from \<open>valueMap m' = valueMap m @ [(length h, v)]\<close>
  have "size_skm m' = Suc (size_skm m)" by (simp add: size_skm_def)
  ultimately show ?thesis using None by (rule insert [rotated])
next
  case (Some c)
  from getCannonicalKey_sound [OF inv key Some]
  have c: "c \<in> canon m" and eq: "set (h ! c) = set (h ! key)" by simp_all
  from r set_skm_update [OF Some, of v]
  have h': "h' = h" and m': "m' = m\<lparr>valueMap := Map_set (valueMap m) c v\<rparr>" by simp_all
  have mf: "map fst (Map_set (valueMap m) c v) = map fst (valueMap m)"
    using c by (simp add: Map_set_map_fst_present canon_def)
  then have "canon m' = canon m" by (simp add: canon_def m')
  moreover have "size_skm m' = size_skm m"
    using c by (simp add: size_skm_def m' Map_set_present_length canon_def)
  ultimately show ?thesis using Some c eq h' m' by (rule update [rotated -2])
qed

section \<open>The claims\<close>

lemmas eval_defs = init_def new_SetKeyedMap_def callerKey_def set_skm_def getCannonicalKey_def
  createCanonicalKey_def createUserFacingKey_def newSetFrom_def get_def has_def delete_def
  clear_def size_skm_def Let_def keys_def entries_def filter_skm_def mapOver_def canon_def
  entriesOf_def

text \<open>
  C6. Resolving an empty key never finds an entry and is not an error: in every state of
  the container, for every key a caller holds that has no elements, \<open>get\<close> returns
  \<open>undefined\<close>, \<open>has\<close> returns \<open>false\<close> and \<open>delete\<close> returns \<open>false\<close> and leaves the
  container as it was.
\<close>

theorem empty_key_never_found:
  assumes "callerKey h m key" and "h ! key = []"
  shows "get h m key = None \<and> \<not> has h m key \<and> delete h m key = (False, m)"
proof -
  from assms have "getCannonicalKey h m key = None"
    by (simp add: callerKey_def getCannonicalKey_empty)
  then show ?thesis by (simp add: get_def has_def delete_def)
qed

lemma empty_key_trace:
  "run [NewSet [], Set 0 (7::nat)] init =
     Some ([[], []], \<lparr>valueMap = [(1, 7)], subkeyToKeys = (\<lambda>e::nat. None)\<rparr>)"
  by (simp add: eval_defs)

theorem empty_key_never_found_witness:
  "run [NewSet [], Set 0 (7::nat)] init =
     Some ([[], []], \<lparr>valueMap = [(1, 7)], subkeyToKeys = (\<lambda>e::nat. None)\<rparr>) \<and>
   callerKey [[], []] \<lparr>valueMap = [(1, 7::nat)], subkeyToKeys = (\<lambda>e::nat. None)\<rparr> 0 \<and>
   get [[], []] \<lparr>valueMap = [(1, 7::nat)], subkeyToKeys = (\<lambda>e::nat. None)\<rparr> 0 = None \<and>
   \<not> has [[], []] \<lparr>valueMap = [(1, 7::nat)], subkeyToKeys = (\<lambda>e::nat. None)\<rparr> 0 \<and>
   delete [[], []] \<lparr>valueMap = [(1, 7::nat)], subkeyToKeys = (\<lambda>e::nat. None)\<rparr> 0 =
     (False, \<lparr>valueMap = [(1, 7)], subkeyToKeys = (\<lambda>e. None)\<rparr>)"
proof -
  have k: "callerKey [[], []] \<lparr>valueMap = [(1, 7::nat)], subkeyToKeys = (\<lambda>e::nat. None)\<rparr> 0"
    by (simp add: callerKey_def)
  have e: "[[], []] ! 0 = ([]::nat list)" by simp
  from empty_key_never_found [OF k e] k empty_key_trace show ?thesis by simp
qed

text \<open>
  C5. After every sequence of calls, a stored canonical key \<open>k\<close> is in the index row of an
  element \<open>e\<close> exactly when \<open>e\<close> is an element of \<open>k\<close>; every key in a row is a stored key
  (no reference to a deleted key is left), and no row is empty.
\<close>

theorem index_bidirectional_consistency:
  assumes "run cs init = Some (h, m)"
  shows "(\<forall>k \<in> canon m. \<forall>e. (\<exists>ks. subkeyToKeys m e = Some ks \<and> k \<in> set ks) \<longleftrightarrow> e \<in> set (h ! k)) \<and>
         (\<forall>e ks. subkeyToKeys m e = Some ks \<longrightarrow> ks \<noteq> [] \<and> set ks \<subseteq> canon m)"
proof -
  note ic = invariantD(4) [OF reachable_invariant [OF assms]]
  have "(\<exists>ks. subkeyToKeys m e = Some ks \<and> k \<in> set ks) \<longleftrightarrow> e \<in> set (h ! k)" if "k \<in> canon m" for k e
  proof
    assume "\<exists>ks. subkeyToKeys m e = Some ks \<and> k \<in> set ks"
    then obtain ks where "subkeyToKeys m e = Some ks" "k \<in> set ks" by blast
    with index_row_Some [OF ic this(1)] show "e \<in> set (h ! k)" by simp
  next
    assume "e \<in> set (h ! k)"
    from index_row_ex [OF ic that this] show "\<exists>ks. subkeyToKeys m e = Some ks \<and> k \<in> set ks" .
  qed
  moreover have "ks \<noteq> [] \<and> set ks \<subseteq> canon m" if "subkeyToKeys m e = Some ks" for e ks
    using index_row_Some [OF ic that] by auto
  ultimately show ?thesis by blast
qed

lemma churn_trace:
  "run [NewSet [1::nat, 2], Set 0 (10::nat), NewSet [2, 3], Set 2 20, Delete 0] init =
     Some ([[1, 2], [1, 2], [2, 3], [2, 3]],
           \<lparr>valueMap = [(3, 20)], subkeyToKeys = (\<lambda>e. None)(2 \<mapsto> [3], 3 \<mapsto> [3])\<rparr>)"
  by (simp add: eval_defs fun_eq_iff)

theorem index_bidirectional_consistency_witness:
  "run [NewSet [1::nat, 2], Set 0 (10::nat), NewSet [2, 3], Set 2 20, Delete 0] init =
     Some ([[1, 2], [1, 2], [2, 3], [2, 3]],
           \<lparr>valueMap = [(3, 20)], subkeyToKeys = (\<lambda>e. None)(2 \<mapsto> [3], 3 \<mapsto> [3])\<rparr>) \<and>
   (\<forall>e::nat. (\<exists>ks. ((\<lambda>e. None)(2 \<mapsto> [3], 3 \<mapsto> [3])) e = Some ks \<and> (3::nat) \<in> set ks) \<longleftrightarrow>
        e \<in> set ([[1, 2], [1, 2], [2, 3], [2, 3]] ! 3))"
  using index_bidirectional_consistency [OF churn_trace] churn_trace
  by (simp add: canon_def)

lemma Map_set_member: "(k, v) \<in> set (Map_set kvs k v)"
proof (induction kvs)
  case Nil
  show ?case by simp
next
  case (Cons kv kvs)
  obtain a b where kv: "kv = (a, b)" by (cases kv)
  show ?case using Cons by (cases "a = k") (simp_all add: kv)
qed

lemma Map_set_member_other:
  "k' \<noteq> k \<Longrightarrow> (k', v') \<in> set kvs \<Longrightarrow> (k', v') \<in> set (Map_set kvs k v)"
proof (induction kvs)
  case Nil
  then show ?case by simp
next
  case (Cons kv kvs)
  obtain a b where kv: "kv = (a, b)" by (cases kv)
  show ?case using Cons by (cases "a = k") (auto simp: kv)
qed

lemma Map_delete_member_other:
  "k' \<noteq> k \<Longrightarrow> (k', v') \<in> set kvs \<Longrightarrow> (k', v') \<in> set (Map_delete kvs k)"
proof (induction kvs)
  case Nil
  then show ?case by simp
next
  case (Cons kv kvs)
  obtain a b where kv: "kv = (a, b)" by (cases kv)
  show ?case using Cons by (cases "a = k") (auto simp: kv)
qed

text \<open>A caller's key stays a caller's key after \<open>set\<close>, with the same elements.\<close>

lemma callerKey_after_set:
  assumes inv: "invariant h m" and key: "key < length h" and r: "set_skm h m key v = (h', m')"
    and k: "callerKey h m k"
  shows "callerKey h' m' k" and "h' ! k = h ! k"
proof -
  note kd = callerKeyD [OF k]
  from inv key r have "k < length h' \<and> k \<notin> canon m' \<and> h' ! k = h ! k"
  proof (cases rule: set_skm_cases)
    case (update c)
    from update(4,6) kd show ?thesis by simp
  next
    case insert
    from insert(2,4) kd show ?thesis by (auto simp: nth_append)
  qed
  then show "callerKey h' m' k" and "h' ! k = h ! k"
    by (simp_all add: callerKey_def Map_has_canon)
qed

text \<open>After \<open>set\<close>, a stored key with the elements of the candidate holds the value.\<close>

lemma stored_after_set:
  assumes inv: "invariant h m" and key: "key < length h" and r: "set_skm h m key v = (h', m')"
  shows "\<exists>c. (c, v) \<in> set (valueMap m') \<and> set (h' ! c) = set (h ! key)"
  using inv key r
proof (cases rule: set_skm_cases)
  case (update c)
  with Map_set_member [of c v "valueMap m"] show ?thesis by auto
next
  case insert
  then show ?thesis by auto
qed

section \<open>The claims about equivalent keys\<close>

text \<open>
  C2. Cardinality discrimination. In every reachable state, if the elements of the key
  \<open>K1\<close> are a strict subset of those of \<open>K2\<close> and no stored key has the elements of \<open>K2\<close>,
  then after \<open>set(K1, v1)\<close> the call \<open>get(K2)\<close> yields \<open>undefined\<close> and \<open>has(K2)\<close> yields
  \<open>false\<close>. More generally a candidate only ever resolves to a stored key with exactly
  its elements, never to a proper subset or superset.
\<close>

theorem cardinality_discrimination:
  assumes reach: "run cs init = Some (h, m)"
    and K1: "callerKey h m K1" and K2: "callerKey h m K2"
    and sub: "set (h ! K1) \<subset> set (h ! K2)"
    and absent: "\<forall>k \<in> canon m. set (h ! k) \<noteq> set (h ! K2)"
    and r: "set_skm h m K1 v1 = (h', m')"
  shows "get h' m' K2 = None \<and> \<not> has h' m' K2 \<and>
         (\<forall>key c. key < length h' \<and> getCannonicalKey h' m' key = Some c \<longrightarrow>
                   set (h' ! c) = set (h' ! key))"
proof -
  note inv = reachable_invariant [OF reach]
  note k1 = callerKeyD(1) [OF K1]
  from invariant_set [OF inv k1, of v1] r have inv': "invariant h' m'" by simp
  note K2' = callerKey_after_set [OF inv k1 r K2]
  have no: "set (h' ! c) \<noteq> set (h' ! K2)" if c: "c \<in> canon m'" for c
    using inv k1 r
  proof (cases rule: set_skm_cases)
    case (update c')
    with c absent K2'(2) show ?thesis by simp
  next
    case insert
    show ?thesis
    proof (cases "c = length h")
      case True
      with insert sub K2'(2) show ?thesis by auto
    next
      case False
      with c insert have cm: "c \<in> canon m" by simp
      with invariantD(3) [OF inv cm] insert have "h' ! c = h ! c" by (simp add: nth_append)
      with absent cm K2'(2) show ?thesis by simp
    qed
  qed
  from get_not_found(2,3) [OF inv' K2'(1) no]
  have "get h' m' K2 = None" and "\<not> has h' m' K2" by simp_all
  moreover have "set (h' ! c) = set (h' ! key)"
    if "key < length h'" and "getCannonicalKey h' m' key = Some c" for key c
    using getCannonicalKey_sound [OF inv' that] by simp
  ultimately show ?thesis by blast
qed

lemma subset_trace:
  "run [NewSet [1::nat], NewSet [1, 2]] init =
     Some ([[1], [1, 2]], (new_SetKeyedMap :: (nat, nat) SetKeyedMap))"
  by (simp add: eval_defs)

theorem cardinality_discrimination_witness:
  "run [NewSet [1::nat], NewSet [1, 2]] init =
     Some ([[1], [1, 2]], (new_SetKeyedMap :: (nat, nat) SetKeyedMap)) \<and>
   set ([[1::nat], [1, 2]] ! 0) \<subset> set ([[1], [1, 2]] ! 1) \<and>
   set_skm [[1::nat], [1, 2]] new_SetKeyedMap 0 (5::nat) =
     ([[1], [1, 2], [1]], \<lparr>valueMap = [(2, 5)], subkeyToKeys = (\<lambda>e. None)(1 \<mapsto> [2])\<rparr>) \<and>
   get [[1::nat], [1, 2], [1]] \<lparr>valueMap = [(2, 5::nat)], subkeyToKeys = (\<lambda>e. None)(1 \<mapsto> [2])\<rparr> 1 = None \<and>
   \<not> has [[1::nat], [1, 2], [1]] \<lparr>valueMap = [(2, 5::nat)], subkeyToKeys = (\<lambda>e. None)(1 \<mapsto> [2])\<rparr> 1"
proof -
  have K1: "callerKey [[1::nat], [1, 2]] (new_SetKeyedMap :: (nat, nat) SetKeyedMap) 0"
    and K2: "callerKey [[1::nat], [1, 2]] (new_SetKeyedMap :: (nat, nat) SetKeyedMap) 1"
    by (simp_all add: eval_defs)
  have sub: "set ([[1::nat], [1, 2]] ! 0) \<subset> set ([[1], [1, 2]] ! 1)" by auto
  have absent: "\<forall>k \<in> canon (new_SetKeyedMap :: (nat, nat) SetKeyedMap).
                  set ([[1::nat], [1, 2]] ! k) \<noteq> set ([[1], [1, 2]] ! 1)"
    by (simp add: eval_defs)
  have r: "set_skm [[1::nat], [1, 2]] new_SetKeyedMap 0 (5::nat) =
     ([[1], [1, 2], [1]], \<lparr>valueMap = [(2, 5)], subkeyToKeys = (\<lambda>e. None)(1 \<mapsto> [2])\<rparr>)"
    by (simp add: eval_defs fun_eq_iff)
  from cardinality_discrimination [OF subset_trace K1 K2 sub absent r] subset_trace sub r
  show ?thesis by simp
qed

text \<open>
  C1, as the claim states it, fails for keys without elements: after \<open>set\<close> with an empty
  key, \<open>get\<close> and \<open>has\<close> with an empty key (here even the same object) find nothing.
\<close>

theorem equivalence_invariance_empty_key_counterexample:
  "run [NewSet [], NewSet []] init = Some ([[], []], (new_SetKeyedMap :: (nat, nat) SetKeyedMap)) \<and>
   set (([[], []] :: nat heap) ! 0) = set (([[], []] :: nat heap) ! 1) \<and>
   set_skm ([[], []] :: nat heap) new_SetKeyedMap 0 (7::nat) =
     ([[], [], []], \<lparr>valueMap = [(2, 7)], subkeyToKeys = (\<lambda>e. None)\<rparr>) \<and>
   get ([[], [], []] :: nat heap) \<lparr>valueMap = [(2, 7::nat)], subkeyToKeys = (\<lambda>e. None)\<rparr> 1 = None \<and>
   \<not> has ([[], [], []] :: nat heap) \<lparr>valueMap = [(2, 7::nat)], subkeyToKeys = (\<lambda>e. None)\<rparr> 1 \<and>
   get ([[], [], []] :: nat heap) \<lparr>valueMap = [(2, 7::nat)], subkeyToKeys = (\<lambda>e. None)\<rparr> 0 = None"
  by (simp add: eval_defs)

text \<open>
  C1, amended. Equivalence-invariance for keys with at least one element: in every
  reachable state, for every key \<open>K1\<close> of a caller with at least one element and every
  value \<open>v\<close>, after \<open>set(K1, v)\<close> the call \<open>get(K2)\<close> returns \<open>v\<close> and \<open>has(K2)\<close> returns
  \<open>true\<close> for every key \<open>K2\<close> with the elements of \<open>K1\<close>, in any order: a key the caller
  holds after the call (\<open>K1\<close> itself, another object that existed before) or a \<open>Set\<close>
  built afterwards.
\<close>

theorem equivalence_invariance_nonempty:
  assumes reach: "run cs init = Some (h, m)"
    and K1: "callerKey h m K1" and ne: "h ! K1 \<noteq> []"
    and r: "set_skm h m K1 v = (h', m')"
  shows "callerKey h' m' K1 \<and>
         (\<forall>K2. callerKey h' m' K2 \<and> set (h' ! K2) = set (h ! K1) \<longrightarrow>
               get h' m' K2 = Some v \<and> has h' m' K2) \<and>
         (\<forall>xs. distinct xs \<and> set xs = set (h ! K1) \<longrightarrow>
               get (h' @ [xs]) m' (length h') = Some v \<and> has (h' @ [xs]) m' (length h'))"
proof -
  note inv = reachable_invariant [OF reach]
  note k1 = callerKeyD(1) [OF K1]
  from invariant_set [OF inv k1, of v] r have inv': "invariant h' m'" by simp
  from stored_after_set [OF inv k1 r] obtain c
    where c: "(c, v) \<in> set (valueMap m')" and ceq: "set (h' ! c) = set (h ! K1)" by blast
  have held: "get h' m' K2 = Some v \<and> has h' m' K2"
    if K2: "callerKey h' m' K2" and eq: "set (h' ! K2) = set (h ! K1)" for K2
  proof -
    from ne eq have ne2: "h' ! K2 \<noteq> []" by (metis set_empty)
    from ceq eq have eq2: "set (h' ! c) = set (h' ! K2)" by simp
    from get_found [OF inv' callerKeyD(1) [OF K2] ne2 c eq2] show ?thesis by simp
  qed
  have built: "get (h' @ [xs]) m' (length h') = Some v \<and> has (h' @ [xs]) m' (length h')"
    if d: "distinct xs" and eq: "set xs = set (h ! K1)" for xs
  proof -
    have inv'': "invariant (h' @ [xs]) m'" by (rule invariant_alloc [OF inv' d])
    from invariantD(3) [OF inv' canon_member [OF c]]
    have "(h' @ [xs]) ! c = h' ! c" by (simp add: nth_append)
    with ceq eq have eq2: "set ((h' @ [xs]) ! c) = set ((h' @ [xs]) ! length h')" by simp
    from ne eq have ne2: "(h' @ [xs]) ! length h' \<noteq> []" by (metis nth_append_length set_empty)
    from get_found [OF inv'' _ ne2 c eq2] show ?thesis by simp
  qed
  from callerKey_after_set(1) [OF inv k1 r K1] held built show ?thesis by blast
qed

lemma order_trace:
  "run [NewSet [1::nat, 2], NewSet [2, 1]] init =
     Some ([[1, 2], [2, 1]], (new_SetKeyedMap :: (nat, nat) SetKeyedMap))"
  by (simp add: eval_defs)

theorem equivalence_invariance_nonempty_witness:
  "run [NewSet [1::nat, 2], NewSet [2, 1]] init =
     Some ([[1, 2], [2, 1]], (new_SetKeyedMap :: (nat, nat) SetKeyedMap)) \<and>
   set_skm [[1::nat, 2], [2, 1]] new_SetKeyedMap 0 (5::nat) =
     ([[1, 2], [2, 1], [1, 2]],
      \<lparr>valueMap = [(2, 5)], subkeyToKeys = (\<lambda>e. None)(1 \<mapsto> [2], 2 \<mapsto> [2])\<rparr>) \<and>
   set ([[1::nat, 2], [2, 1], [1, 2]] ! 1) = set ([[1, 2], [2, 1]] ! 0) \<and>
   get [[1::nat, 2], [2, 1], [1, 2]]
       \<lparr>valueMap = [(2, 5::nat)], subkeyToKeys = (\<lambda>e. None)(1 \<mapsto> [2], 2 \<mapsto> [2])\<rparr> 1 = Some 5 \<and>
   has [[1::nat, 2], [2, 1], [1, 2]]
       \<lparr>valueMap = [(2, 5::nat)], subkeyToKeys = (\<lambda>e. None)(1 \<mapsto> [2], 2 \<mapsto> [2])\<rparr> 1 \<and>
   get ([[1::nat, 2], [2, 1], [1, 2]] @ [[2, 1]])
       \<lparr>valueMap = [(2, 5::nat)], subkeyToKeys = (\<lambda>e. None)(1 \<mapsto> [2], 2 \<mapsto> [2])\<rparr> 3 = Some 5"
proof -
  have K1: "callerKey [[1::nat, 2], [2, 1]] (new_SetKeyedMap :: (nat, nat) SetKeyedMap) 0"
    by (simp add: eval_defs)
  have ne: "[[1::nat, 2], [2, 1]] ! 0 \<noteq> []" by simp
  have r: "set_skm [[1::nat, 2], [2, 1]] new_SetKeyedMap 0 (5::nat) =
     ([[1, 2], [2, 1], [1, 2]],
      \<lparr>valueMap = [(2, 5)], subkeyToKeys = (\<lambda>e. None)(1 \<mapsto> [2], 2 \<mapsto> [2])\<rparr>)"
    by (simp add: eval_defs fun_eq_iff)
  have K2: "callerKey [[1::nat, 2], [2, 1], [1, 2]]
       \<lparr>valueMap = [(2, 5::nat)], subkeyToKeys = (\<lambda>e::nat. None)(1 \<mapsto> [2], 2 \<mapsto> [2])\<rparr> 1"
    by (simp add: eval_defs)
  have eq: "set ([[1::nat, 2], [2, 1], [1, 2]] ! 1) = set ([[1, 2], [2, 1]] ! 0)" by auto
  have built: "distinct [2::nat, 1] \<and> set [2::nat, 1] = set ([[1, 2], [2, 1]] ! 0)" by auto
  note c = equivalence_invariance_nonempty [OF order_trace K1 ne r]
  from c K2 eq have held: "get [[1::nat, 2], [2, 1], [1, 2]]
       \<lparr>valueMap = [(2, 5::nat)], subkeyToKeys = (\<lambda>e. None)(1 \<mapsto> [2], 2 \<mapsto> [2])\<rparr> 1 = Some 5 \<and>
     has [[1::nat, 2], [2, 1], [1, 2]]
       \<lparr>valueMap = [(2, 5::nat)], subkeyToKeys = (\<lambda>e. None)(1 \<mapsto> [2], 2 \<mapsto> [2])\<rparr> 1"
    by blast
  have l: "length [[1::nat, 2], [2, 1], [1, 2]] = 3" by simp
  from c built have "get ([[1::nat, 2], [2, 1], [1, 2]] @ [[2, 1]])
       \<lparr>valueMap = [(2, 5::nat)], subkeyToKeys = (\<lambda>e. None)(1 \<mapsto> [2], 2 \<mapsto> [2])\<rparr>
       (length [[1::nat, 2], [2, 1], [1, 2]]) = Some 5"
    by blast
  then have "get ([[1::nat, 2], [2, 1], [1, 2]] @ [[2, 1]])
       \<lparr>valueMap = [(2, 5::nat)], subkeyToKeys = (\<lambda>e. None)(1 \<mapsto> [2], 2 \<mapsto> [2])\<rparr> 3 = Some 5"
    unfolding l .
  with held order_trace r eq show ?thesis by blast
qed

text \<open>
  C4, as the claim states it, fails once empty keys are inserted: two calls of \<open>set\<close> with
  an empty key leave two stored keys, the objects 1 and 2, with the same (empty)
  membership.
\<close>

theorem canonical_uniqueness_empty_key_counterexample:
  "run [NewSet [], Set 0 (1::nat), Set 0 2] init =
     Some ([[], [], []] :: nat heap, \<lparr>valueMap = [(1, 1), (2, 2)], subkeyToKeys = (\<lambda>e. None)\<rparr>) \<and>
   canon \<lparr>valueMap = [(1, 1::nat), (2, 2)], subkeyToKeys = (\<lambda>e::nat. None)\<rparr> = {1, 2} \<and>
   set (([[], [], []] :: nat heap) ! 1) = set (([[], [], []] :: nat heap) ! 2) \<and> (1::nat) \<noteq> 2"
  by (simp add: eval_defs)

text \<open>
  C4, amended. In every state reached by a sequence of calls (\<open>set\<close>, \<open>delete\<close>, \<open>clear\<close>,
  \<open>filter\<close>, \<open>mapOver\<close>, the read-only methods), the keys of the value map are distinct
  objects and no two stored keys that have elements have the same elements.
\<close>

theorem canonical_uniqueness_nonempty:
  assumes "run cs init = Some (h, m)"
  shows "distinct (map fst (valueMap m)) \<and>
         (\<forall>k1 \<in> canon m. \<forall>k2 \<in> canon m.
            h ! k1 \<noteq> [] \<and> set (h ! k1) = set (h ! k2) \<longrightarrow> k1 = k2)"
  using invariantD(2,5) [OF reachable_invariant [OF assms]]
  unfolding unique_canonical_def by blast

lemma two_keys_trace:
  "run [NewSet [1::nat, 2], Set 0 (10::nat), NewSet [2, 1], Set 2 20, NewSet [1, 3], Set 3 30] init =
     Some ([[1, 2], [1, 2], [2, 1], [1, 3], [1, 3]],
           \<lparr>valueMap = [(1, 20), (4, 30)],
             subkeyToKeys = (\<lambda>e. None)(1 \<mapsto> [1, 4], 2 \<mapsto> [1], 3 \<mapsto> [4])\<rparr>)"
  by (simp add: eval_defs fun_eq_iff)

theorem canonical_uniqueness_nonempty_witness:
  "run [NewSet [1::nat, 2], Set 0 (10::nat), NewSet [2, 1], Set 2 20, NewSet [1, 3], Set 3 30] init =
     Some ([[1, 2], [1, 2], [2, 1], [1, 3], [1, 3]],
           \<lparr>valueMap = [(1, 20), (4, 30)],
             subkeyToKeys = (\<lambda>e. None)(1 \<mapsto> [1, 4], 2 \<mapsto> [1], 3 \<mapsto> [4])\<rparr>) \<and>
   distinct (map fst [(1::nat, 20::nat), (4, 30)]) \<and>
   set ([[1::nat, 2], [1, 2], [2, 1], [1, 3], [1, 3]] ! 1) \<noteq>
   set ([[1::nat, 2], [1, 2], [2, 1], [1, 3], [1, 3]] ! 4)"
  using canonical_uniqueness_nonempty [OF two_keys_trace] two_keys_trace
  by (auto simp: canon_def)

text \<open>Further calls of \<open>set\<close> with keys equivalent to a stored key only overwrite its value.\<close>

lemma set_equivalent_updates:
  assumes inv: "invariant h m" and K: "callerKey h m K" and ne: "h ! K \<noteq> []"
    and c: "c \<in> canon m" and eq: "set (h ! c) = set (h ! K)"
  shows "set_skm h m K v = (h, m\<lparr>valueMap := Map_set (valueMap m) c v\<rparr>)"
  using getCannonicalKey_complete [OF inv callerKeyD(1) [OF K] ne c eq]
  by (simp add: set_skm_update)

lemma callerKey_same_canon: "canon m' = canon m \<Longrightarrow> callerKey h m' k = callerKey h m k"
  unfolding callerKey_def Map_has_canon by simp

lemma repeated_set:
  assumes ne: "xs \<noteq> []"
  shows "invariant h m \<Longrightarrow> c \<in> canon m \<Longrightarrow> set (h ! c) = set xs \<Longrightarrow>
         \<forall>(K', v') \<in> set kvs. callerKey h m K' \<and> set (h ! K') = set xs \<Longrightarrow>
         \<exists>m2. run (map (\<lambda>(K', v'). Set K' v') kvs) (h, m) = Some (h, m2) \<and>
              size_skm m2 = size_skm m \<and> canon m2 = canon m \<and>
              Map_get (valueMap m2) c = (if kvs = [] then Map_get (valueMap m) c
                                         else Some (snd (last kvs)))"
proof (induction kvs arbitrary: m)
  case Nil
  then show ?case by simp
next
  case (Cons kv kvs)
  obtain K v where kv: "kv = (K, v)" by (cases kv)
  let ?m1 = "m\<lparr>valueMap := Map_set (valueMap m) c v\<rparr>"
  from Cons.prems(4) kv have K: "callerKey h m K" and Keq: "set (h ! K) = set xs"
    and rest: "\<forall>(K', v') \<in> set kvs. callerKey h m K' \<and> set (h ! K') = set xs"
    by simp_all
  from Keq ne have Kne: "h ! K \<noteq> []" by (metis set_empty)
  from Cons.prems(3) Keq have ceq: "set (h ! c) = set (h ! K)" by simp
  have s: "set_skm h m K v = (h, ?m1)"
    by (rule set_equivalent_updates [OF Cons.prems(1) K Kne Cons.prems(2) ceq])
  have inv1: "invariant h ?m1" by (rule invariant_set_update [OF Cons.prems(1,2)])
  have mf: "map fst (Map_set (valueMap m) c v) = map fst (valueMap m)"
    using Cons.prems(2) by (simp add: Map_set_map_fst_present canon_def)
  then have can1: "canon ?m1 = canon m" by (simp add: canon_def)
  have size1: "size_skm ?m1 = size_skm m"
    using Cons.prems(2) by (simp add: size_skm_def Map_set_present_length canon_def)
  have rest1: "\<forall>(K', v') \<in> set kvs. callerKey h ?m1 K' \<and> set (h ! K') = set xs"
    using rest unfolding callerKey_same_canon [OF can1] .
  from Cons.prems(2) can1 have c1: "c \<in> canon ?m1" by simp
  from Cons.IH [OF inv1 c1 Cons.prems(3) rest1] obtain m2
    where run: "run (map (\<lambda>(K', v'). Set K' v') kvs) (h, ?m1) = Some (h, m2)"
      and sz: "size_skm m2 = size_skm ?m1" and cn: "canon m2 = canon ?m1"
      and val: "Map_get (valueMap m2) c = (if kvs = [] then Map_get (valueMap ?m1) c
                                           else Some (snd (last kvs)))"
    by blast
  have "run (map (\<lambda>(K', v'). Set K' v') (kv # kvs)) (h, m) = Some (h, m2)"
    using run s K by (simp add: kv)
  moreover have "Map_get (valueMap m2) c = Some (snd (last (kv # kvs)))"
    using val by (simp add: kv Map_get_set)
  ultimately show ?case using sz cn size1 can1 by auto
qed

text \<open>
  C3, as the claim states it, fails for the empty key: each \<open>set\<close> with an empty key adds
  an entry, and \<open>get\<close> with an empty key returns none of the values.
\<close>

theorem upsert_idempotence_empty_key_counterexample:
  "set_skm ([[]] :: nat heap) new_SetKeyedMap 0 (1::nat) =
     ([[], []], \<lparr>valueMap = [(1, 1)], subkeyToKeys = (\<lambda>e. None)\<rparr>) \<and>
   size_skm \<lparr>valueMap = [(1, 1::nat)], subkeyToKeys = (\<lambda>e::nat. None)\<rparr> = 1 \<and>
   set_skm ([[], []] :: nat heap) \<lparr>valueMap = [(1, 1::nat)], subkeyToKeys = (\<lambda>e. None)\<rparr> 0 2 =
     ([[], [], []], \<lparr>valueMap = [(1, 1), (2, 2)], subkeyToKeys = (\<lambda>e. None)\<rparr>) \<and>
   size_skm \<lparr>valueMap = [(1, 1::nat), (2, 2)], subkeyToKeys = (\<lambda>e::nat. None)\<rparr> = 2 \<and>
   get ([[], [], []] :: nat heap) \<lparr>valueMap = [(1, 1::nat), (2, 2)], subkeyToKeys = (\<lambda>e. None)\<rparr> 0 = None"
  by (simp add: eval_defs)

text \<open>
  C3, amended. Upsert idempotence for keys with at least one element: in every reachable
  state, after a first \<open>set(K, v)\<close> with a key that has elements, any further calls of \<open>set\<close>
  with keys equivalent to \<open>K\<close> leave \<open>size\<close> as it was after the first call, and a \<open>get\<close>
  with an equivalent key then returns the value of the most recent \<open>set\<close>.
\<close>

theorem upsert_idempotence_nonempty:
  assumes reach: "run cs init = Some (h, m)"
    and K: "callerKey h m K" and ne: "h ! K \<noteq> []"
    and kvs: "\<forall>(K', v') \<in> set kvs. callerKey h m K' \<and> set (h ! K') = set (h ! K)"
    and K3: "callerKey h m K3" and eq3: "set (h ! K3) = set (h ! K)"
    and r: "set_skm h m K v = (h1, m1)"
  shows "\<exists>h2 m2. run (map (\<lambda>(K', v'). Set K' v') kvs) (h1, m1) = Some (h2, m2) \<and>
                 size_skm m2 = size_skm m1 \<and>
                 get h2 m2 K3 = Some (last (v # map snd kvs))"
proof -
  note inv = reachable_invariant [OF reach]
  note k = callerKeyD(1) [OF K]
  from invariant_set [OF inv k, of v] r have inv1: "invariant h1 m1" by simp
  from stored_after_set [OF inv k r] obtain c
    where cv: "(c, v) \<in> set (valueMap m1)" and ceq: "set (h1 ! c) = set (h ! K)" by blast
  note c = canon_member [OF cv]
  have kvs1: "\<forall>(K', v') \<in> set kvs. callerKey h1 m1 K' \<and> set (h1 ! K') = set (h ! K)"
  proof (intro ballI, clarify)
    fix K' v' assume "(K', v') \<in> set kvs"
    with kvs have "callerKey h m K'" and "set (h ! K') = set (h ! K)" by auto
    with callerKey_after_set [OF inv k r this(1)]
    show "callerKey h1 m1 K' \<and> set (h1 ! K') = set (h ! K)" by simp
  qed
  from repeated_set [OF ne inv1 c ceq kvs1] obtain m2
    where run: "run (map (\<lambda>(K', v'). Set K' v') kvs) (h1, m1) = Some (h1, m2)"
      and sz: "size_skm m2 = size_skm m1" and cn: "canon m2 = canon m1"
      and val: "Map_get (valueMap m2) c = (if kvs = [] then Map_get (valueMap m1) c
                                           else Some (snd (last kvs)))"
    by blast
  from Map_get_member [OF invariantD(2) [OF inv1] cv] val
  have val': "Map_get (valueMap m2) c = Some (last (v # map snd kvs))"
    by (simp add: last_map)
  have inv2: "invariant h1 m2"
    by (rule run_invariant [OF inv1 run])
  note K3' = callerKey_after_set [OF inv k r K3]
  from cn c have c2: "c \<in> canon m2" by simp
  from ne eq3 K3'(2) have ne3: "h1 ! K3 \<noteq> []" by (metis set_empty)
  from ceq eq3 K3'(2) have eq': "set (h1 ! c) = set (h1 ! K3)" by simp
  from getCannonicalKey_complete [OF inv2 callerKeyD(1) [OF K3'(1)] ne3 c2 eq'] val'
  have "get h1 m2 K3 = Some (last (v # map snd kvs))" by (simp add: get_def)
  with run sz show ?thesis by blast
qed

lemma upsert_trace:
  "run [NewSet [1::nat, 2], NewSet [2, 1]] init =
     Some ([[1, 2], [2, 1]], (new_SetKeyedMap :: (nat, nat) SetKeyedMap))"
  by (simp add: eval_defs)

theorem upsert_idempotence_nonempty_witness:
  "run [NewSet [1::nat, 2], NewSet [2, 1]] init =
     Some ([[1, 2], [2, 1]], (new_SetKeyedMap :: (nat, nat) SetKeyedMap)) \<and>
   set_skm [[1::nat, 2], [2, 1]] new_SetKeyedMap 0 (1::nat) =
     ([[1, 2], [2, 1], [1, 2]],
      \<lparr>valueMap = [(2, 1)], subkeyToKeys = (\<lambda>e. None)(1 \<mapsto> [2], 2 \<mapsto> [2])\<rparr>) \<and>
   (\<exists>h2 m2. run [Set 1 2, Set 0 3]
               ([[1::nat, 2], [2, 1], [1, 2]],
                \<lparr>valueMap = [(2, 1::nat)], subkeyToKeys = (\<lambda>e. None)(1 \<mapsto> [2], 2 \<mapsto> [2])\<rparr>) =
               Some (h2, m2) \<and>
             size_skm m2 = 1 \<and> get h2 m2 1 = Some 3)"
proof -
  have K: "callerKey [[1::nat, 2], [2, 1]] (new_SetKeyedMap :: (nat, nat) SetKeyedMap) 0"
    and K3: "callerKey [[1::nat, 2], [2, 1]] (new_SetKeyedMap :: (nat, nat) SetKeyedMap) 1"
    by (simp_all add: eval_defs)
  have ne: "[[1::nat, 2], [2, 1]] ! 0 \<noteq> []" by simp
  have eq3: "set ([[1::nat, 2], [2, 1]] ! 1) = set ([[1, 2], [2, 1]] ! 0)" by auto
  have kvs: "\<forall>(K', v') \<in> set [(1, 2::nat), (0, 3)].
               callerKey [[1::nat, 2], [2, 1]] (new_SetKeyedMap :: (nat, nat) SetKeyedMap) K' \<and>
               set ([[1::nat, 2], [2, 1]] ! K') = set ([[1, 2], [2, 1]] ! 0)"
    using K K3 eq3 by simp
  have r: "set_skm [[1::nat, 2], [2, 1]] new_SetKeyedMap 0 (1::nat) =
     ([[1, 2], [2, 1], [1, 2]],
      \<lparr>valueMap = [(2, 1)], subkeyToKeys = (\<lambda>e. None)(1 \<mapsto> [2], 2 \<mapsto> [2])\<rparr>)"
    by (simp add: eval_defs fun_eq_iff)
  from upsert_idempotence_nonempty [OF upsert_trace K ne kvs K3 eq3 r] upsert_trace r
  show ?thesis by (simp add: size_skm_def)
qed

section \<open>Entries stored under an empty key\<close>

lemma resolves_nonempty:
  assumes k: "callerKey h m k" and res: "getCannonicalKey h m k = Some c"
  shows "h ! c \<noteq> []"
proof -
  from k have nh: "\<not> Map_has (valueMap m) k" by (simp add: callerKey_def)
  note rows = getCannonicalKey_Some_rows [OF nh res]
  from rows(1) obtain e0 where "e0 \<in> set (h ! k)" by (cases "h ! k") auto
  from rows(2) [OF this] rows(1) show ?thesis by auto
qed

lemma entry_persists_step:
  assumes inv: "invariant h m" and cv: "(c, v) \<in> set (valueMap m)" and e: "h ! c = []"
    and kp: "keeps_entries call" and s: "step call (h, m) = Some (h2, m2)"
  shows "(c, v) \<in> set (valueMap m2) \<and> h2 ! c = []"
proof -
  note cc = canon_member [OF cv]
  note cb = invariantD(3) [OF inv cc]
  have ext: "(h @ ext) ! c = []" for ext using cb e by (simp add: nth_append)
  show ?thesis
  proof (cases call)
    case (NewSet xs)
    with s cv ext show ?thesis by (auto split: if_splits)
  next
    case (Mutate r xs)
    with s have r: "callerKey h m r" and h2: "h2 = h[r := xs]" and m2: "m2 = m"
      by (auto split: if_splits)
    from callerKeyD(2) [OF r] cc have "r \<noteq> c" by blast
    with h2 m2 cv e show ?thesis by simp
  next
    case (Set k v2)
    with s have k: "callerKey h m k" and r: "set_skm h m k v2 = (h2, m2)"
      by (auto split: if_splits)
    from inv callerKeyD(1) [OF k] r show ?thesis
    proof (cases rule: set_skm_cases)
      case (update c')
      from resolves_nonempty [OF k update(1)] e have "c \<noteq> c'" by auto
      from Map_set_member_other [OF this cv, of v2] update(4,5) e show ?thesis by simp
    next
      case insert
      with cv ext show ?thesis by simp
    qed
  next
    case (Delete k)
    with s have k: "callerKey h m k" and h2: "h2 = h" and m2: "m2 = snd (delete h m k)"
      by (auto split: if_splits)
    show ?thesis
    proof (cases "getCannonicalKey h m k")
      case None
      with h2 m2 cv e show ?thesis by (simp add: delete_not_found)
    next
      case (Some c')
      from resolves_nonempty [OF k Some] e have "c \<noteq> c'" by auto
      from Map_delete_member_other [OF this cv] h2 m2 e Some show ?thesis
        by (simp add: delete_found)
    qed
  next
    case Clear
    with kp show ?thesis by simp
  next
    case Keys
    with s have "h2 = h @ map (\<lambda>k. h ! k) (map fst (valueMap m))" and "m2 = m"
      by (auto simp: keys_def keys_loop_heap [OF canon_bounded_keys [OF inv]])
    with cv ext show ?thesis by simp
  next
    case Entries
    with s have "h2 = h @ map (\<lambda>(k, v). h ! k) (valueMap m)" and "m2 = m"
      by (auto simp: entries_def entries_loop_heap [OF canon_bounded [OF inv]])
    with cv ext show ?thesis by simp
  next
    case (Filter f)
    with kp show ?thesis by simp
  next
    case (MapOver f)
    with kp show ?thesis by simp
  qed
qed

lemma entry_persists:
  "invariant h m \<Longrightarrow> (c, v) \<in> set (valueMap m) \<Longrightarrow> h ! c = [] \<Longrightarrow>
   list_all keeps_entries cs \<Longrightarrow> run cs (h, m) = Some (h2, m2) \<Longrightarrow>
   (c, v) \<in> set (valueMap m2) \<and> h2 ! c = []"
proof (induction cs arbitrary: h m)
  case Nil
  then show ?case by simp
next
  case (Cons call cs)
  from Cons.prems(5) obtain h1 m1 where s: "step call (h, m) = Some (h1, m1)"
    and r: "run cs (h1, m1) = Some (h2, m2)"
    by (cases "step call (h, m)") auto
  from Cons.prems(4) have kp: "keeps_entries call" and kps: "list_all keeps_entries cs" by simp_all
  from entry_persists_step [OF Cons.prems(1,2,3) kp s]
  have "(c, v) \<in> set (valueMap m1)" and "h1 ! c = []" by simp_all
  from Cons.IH [OF step_invariant [OF Cons.prems(1) s] this kps r] show ?case .
qed

text \<open>
  C9. In every reachable state, \<open>set\<close> with a key without elements appends a new entry:
  \<open>size\<close> grows by exactly one, also when entries with an empty key are already stored.
  No empty key of a caller finds the entry through \<open>get\<close>, \<open>has\<close> or \<open>delete\<close>, and the
  entry stays stored through every later sequence of calls on the container other than
  \<open>clear\<close>, which empties the value map.
\<close>

theorem empty_key_set_always_inserts:
  assumes reach: "run cs init = Some (h, m)" and key: "callerKey h m key" and e: "h ! key = []"
    and r: "set_skm h m key v = (h', m')"
  shows "size_skm m' = size_skm m + 1 \<and>
         valueMap m' = valueMap m @ [(length h, v)] \<and> h' ! length h = [] \<and>
         (\<forall>k. callerKey h' m' k \<and> h' ! k = [] \<longrightarrow>
               get h' m' k = None \<and> \<not> has h' m' k \<and> delete h' m' k = (False, m')) \<and>
         (\<forall>cs' h2 m2. list_all keeps_entries cs' \<and> run cs' (h', m') = Some (h2, m2) \<longrightarrow>
               (length h, v) \<in> set (valueMap m2) \<and> h2 ! length h = []) \<and>
         size_skm (clear m') = 0"
proof -
  note inv = reachable_invariant [OF reach]
  note k = callerKeyD(1) [OF key]
  from invariant_set [OF inv k, of v] r have inv': "invariant h' m'" by simp
  from key e have none: "getCannonicalKey h m key = None"
    by (simp add: callerKey_def getCannonicalKey_empty)
  from inv k r have ins: "h' = h @ [h ! key]" "valueMap m' = valueMap m @ [(length h, v)]"
      "size_skm m' = Suc (size_skm m)"
    by (cases rule: set_skm_cases; simp add: none)+
  from ins(1) e have empty: "h' ! length h = []" by simp
  from ins(2) have stored: "(length h, v) \<in> set (valueMap m')" by simp
  have nf: "get h' m' k = None \<and> \<not> has h' m' k \<and> delete h' m' k = (False, m')"
    if "callerKey h' m' k" and "h' ! k = []" for k
  proof -
    from that have "getCannonicalKey h' m' k = None"
      by (simp add: callerKey_def getCannonicalKey_empty)
    then show ?thesis by (simp add: get_def has_def delete_def)
  qed
  have stays: "(length h, v) \<in> set (valueMap m2) \<and> h2 ! length h = []"
    if "list_all keeps_entries cs'" and "run cs' (h', m') = Some (h2, m2)" for cs' h2 m2
    by (rule entry_persists [OF inv' stored empty that])
  have "size_skm (clear m') = 0" by (simp add: size_skm_def clear_def)
  with ins(2,3) empty nf stays show ?thesis by (simp only: Suc_eq_plus1) blast
qed

lemma one_empty_entry_trace:
  "run [NewSet [], Set 0 (1::nat)] init =
     Some ([[], []] :: nat heap, \<lparr>valueMap = [(1, 1)], subkeyToKeys = (\<lambda>e. None)\<rparr>)"
  by (simp add: eval_defs)

theorem empty_key_set_always_inserts_witness:
  "run [NewSet [], Set 0 (1::nat)] init =
     Some ([[], []] :: nat heap, \<lparr>valueMap = [(1, 1)], subkeyToKeys = (\<lambda>e. None)\<rparr>) \<and>
   set_skm ([[], []] :: nat heap) \<lparr>valueMap = [(1, 1::nat)], subkeyToKeys = (\<lambda>e. None)\<rparr> 0 2 =
     ([[], [], []], \<lparr>valueMap = [(1, 1), (2, 2)], subkeyToKeys = (\<lambda>e. None)\<rparr>) \<and>
   size_skm \<lparr>valueMap = [(1, 1::nat), (2, 2)], subkeyToKeys = (\<lambda>e::nat. None)\<rparr> =
     size_skm \<lparr>valueMap = [(1, 1::nat)], subkeyToKeys = (\<lambda>e::nat. None)\<rparr> + 1 \<and>
   get ([[], [], []] :: nat heap) \<lparr>valueMap = [(1, 1::nat), (2, 2)], subkeyToKeys = (\<lambda>e. None)\<rparr> 0 = None \<and>
   delete ([[], [], []] :: nat heap) \<lparr>valueMap = [(1, 1::nat), (2, 2)], subkeyToKeys = (\<lambda>e. None)\<rparr> 0 =
     (False, \<lparr>valueMap = [(1, 1), (2, 2)], subkeyToKeys = (\<lambda>e. None)\<rparr>) \<and>
   run [Delete 0, Set 0 3]
       ([[], [], []] :: nat heap, \<lparr>valueMap = [(1, 1::nat), (2, 2)], subkeyToKeys = (\<lambda>e. None)\<rparr>) =
     Some ([[], [], [], []], \<lparr>valueMap = [(1, 1), (2, 2), (3, 3)], subkeyToKeys = (\<lambda>e. None)\<rparr>) \<and>
   (2, 2) \<in> set [(1::nat, 1::nat), (2, 2), (3, 3)]"
proof -
  have key: "callerKey ([[], []] :: nat heap) \<lparr>valueMap = [(1, 1::nat)], subkeyToKeys = (\<lambda>e. None)\<rparr> 0"
    by (simp add: eval_defs)
  have e: "([[], []] :: nat heap) ! 0 = []" by simp
  have r: "set_skm ([[], []] :: nat heap) \<lparr>valueMap = [(1, 1::nat)], subkeyToKeys = (\<lambda>e. None)\<rparr> 0 2 =
     ([[], [], []], \<lparr>valueMap = [(1, 1), (2, 2)], subkeyToKeys = (\<lambda>e. None)\<rparr>)"
    by (simp add: eval_defs)
  have later: "run [Delete 0, Set 0 3]
       ([[], [], []] :: nat heap, \<lparr>valueMap = [(1, 1::nat), (2, 2)], subkeyToKeys = (\<lambda>e. None)\<rparr>) =
     Some ([[], [], [], []], \<lparr>valueMap = [(1, 1), (2, 2), (3, 3)], subkeyToKeys = (\<lambda>e. None)\<rparr>)"
    by (simp add: eval_defs)
  from empty_key_set_always_inserts [OF one_empty_entry_trace key e r] one_empty_entry_trace r later
  show ?thesis by (simp add: eval_defs)
qed

section \<open>The container only reads the objects of its own keys\<close>

lemma getCannonicalKey_same:
  assumes inv: "invariant h1 m" and same: "\<And>k. k \<in> canon m \<Longrightarrow> h2 ! k = h1 ! k"
    and k1: "\<not> Map_has (valueMap m) key" and k2: "\<not> Map_has (valueMap m) key'"
    and cont: "h2 ! key' = h1 ! key"
  shows "getCannonicalKey h2 m key' = getCannonicalKey h1 m key"
proof -
  let ?row = "\<lambda>h n keys. case keys of None \<Rightarrow> [] | Some ks \<Rightarrow> filter (\<lambda>k. length (h ! k) = n) ks"
  have rows: "map (?row h2 n) (map (\<lambda>subkey. subkeyToKeys m subkey) xs) =
              map (?row h1 n) (map (\<lambda>subkey. subkeyToKeys m subkey) xs)" for n xs
  proof (rule map_cong [OF refl])
    fix keys assume "keys \<in> set (map (\<lambda>subkey. subkeyToKeys m subkey) xs)"
    then obtain e where e: "keys = subkeyToKeys m e" by auto
    show "?row h2 n keys = ?row h1 n keys"
    proof (cases keys)
      case None
      then show ?thesis by simp
    next
      case (Some ks)
      with e have "subkeyToKeys m e = Some ks" by simp
      from index_row_Some [OF invariantD(4) [OF inv] this] have "set ks \<subseteq> canon m" by auto
      with same have "filter (\<lambda>k. length (h2 ! k) = n) ks = filter (\<lambda>k. length (h1 ! k) = n) ks"
        by (intro filter_cong) auto
      with Some show ?thesis by simp
    qed
  qed
  show ?thesis
    unfolding getCannonicalKey_def Let_def cont using k1 k2 by (simp only: rows if_False)
qed

lemma mutation_invisibleI:
  assumes inv: "invariant h m" and r: "r < length h" and nc: "r \<notin> canon m"
  shows "mutation_invisible h m r"
  unfolding mutation_invisible_def
proof (intro allI impI conjI)
  fix xs :: "'a list" assume d: "distinct xs"
  from r nc have ck: "callerKey h m r" by (simp add: callerKey_def Map_has_canon)
  with d show "step (Mutate r xs) (h, m) = Some (h[r := xs], m)" by simp
  have same: "h[r := xs] ! k = h ! k" if "k \<in> canon m" for k
    using that nc by (metis nth_list_update_neq)
  show "entriesOf (h[r := xs]) m = entriesOf h m"
    by (rule entriesOf_heap_change [OF same])
  fix key key'
  assume a: "callerKey h m key \<and> callerKey (h[r := xs]) m key' \<and> h[r := xs] ! key' = h ! key"
  then have "\<not> Map_has (valueMap m) key" and "\<not> Map_has (valueMap m) key'"
    and "h[r := xs] ! key' = h ! key"
    by (simp_all add: callerKey_def)
  from getCannonicalKey_same [OF inv same this]
  have g: "getCannonicalKey (h[r := xs]) m key' = getCannonicalKey h m key" .
  show "get (h[r := xs]) m key' = get h m key" by (simp add: get_def g)
  show "has (h[r := xs]) m key' = has h m key" by (simp add: has_def g)
qed

text \<open>
  C8. In every reachable state, the keys produced by \<open>keys()\<close> and \<open>entries()\<close> have, in
  Store order, the elements of the stored canonical keys (and \<open>entries()\<close> the stored
  values), and each is an object that is not a key of the value map. A caller can
  therefore change a yielded key at will: the container stays as it is (size, index),
  its entries read the same, and \<open>get\<close> and \<open>has\<close> answer as before.
\<close>

theorem iteration_yields_fresh_copies:
  assumes reach: "run cs init = Some (h, m)"
    and ks: "keys h m = (hk, ks)" and es: "entries h m = (he, es)"
  shows "map (\<lambda>r. hk ! r) ks = map fst (entriesOf h m) \<and>
         map (\<lambda>(r, v). (he ! r, v)) es = entriesOf h m \<and>
         (\<forall>r \<in> set ks. r \<notin> canon m \<and> mutation_invisible hk m r) \<and>
         (\<forall>r \<in> set (map fst es). r \<notin> canon m \<and> mutation_invisible he m r)"
proof -
  note inv = reachable_invariant [OF reach]
  let ?n = "length (valueMap m)"
  from ks keys_loop_heap [OF canon_bounded_keys [OF inv]]
  have hk: "hk = h @ map (\<lambda>k. h ! k) (map fst (valueMap m))"
    and ksv: "ks = [length h ..< length h + ?n]"
    by (simp_all add: keys_def)
  from es entries_loop_heap [OF canon_bounded [OF inv]]
  have he: "he = h @ map (\<lambda>(k, v). h ! k) (valueMap m)"
    and esv: "es = zip [length h ..< length h + ?n] (map snd (valueMap m))"
    by (simp_all add: entries_def)
  have invk: "invariant hk m" using invariant_keys [OF inv] ks by simp
  have inve: "invariant he m" using invariant_entries [OF inv] es by simp
  have c1: "map (\<lambda>r. hk ! r) ks = map fst (entriesOf h m)"
    unfolding hk ksv entriesOf_def
    by (rule nth_equalityI) (simp_all add: nth_append case_prod_unfold)
  have c2: "map (\<lambda>(r, v). (he ! r, v)) es = entriesOf h m"
    unfolding he esv entriesOf_def
    by (rule nth_equalityI) (simp_all add: nth_append case_prod_unfold)
  have fresh: "r \<notin> canon m" if "length h \<le> r" for r
    using invariantD(3) [OF inv, of r] that by auto
  have c3: "r \<notin> canon m \<and> mutation_invisible hk m r" if "r \<in> set ks" for r
  proof -
    from that have "length h \<le> r" and "r < length hk" by (simp_all add: ksv hk)
    with fresh mutation_invisibleI [OF invk] show ?thesis by simp
  qed
  have c4: "r \<notin> canon m \<and> mutation_invisible he m r" if "r \<in> set (map fst es)" for r
  proof -
    from that have "length h \<le> r" and "r < length he" by (simp_all add: esv he)
    with fresh mutation_invisibleI [OF inve] show ?thesis by simp
  qed
  from c1 c2 c3 c4 show ?thesis by blast
qed

lemma one_entry_trace:
  "run [NewSet [1::nat, 2], Set 0 (10::nat)] init =
     Some ([[1, 2], [1, 2]],
           \<lparr>valueMap = [(1, 10)], subkeyToKeys = (\<lambda>e. None)(1 \<mapsto> [1], 2 \<mapsto> [1])\<rparr>)"
  by (simp add: eval_defs fun_eq_iff)

theorem iteration_yields_fresh_copies_witness:
  "run [NewSet [1::nat, 2], Set 0 (10::nat)] init =
     Some ([[1, 2], [1, 2]],
           \<lparr>valueMap = [(1, 10)], subkeyToKeys = (\<lambda>e. None)(1 \<mapsto> [1], 2 \<mapsto> [1])\<rparr>) \<and>
   keys [[1::nat, 2], [1, 2]]
        \<lparr>valueMap = [(1, 10::nat)], subkeyToKeys = (\<lambda>e. None)(1 \<mapsto> [1], 2 \<mapsto> [1])\<rparr> =
     ([[1, 2], [1, 2], [1, 2]], [2]) \<and>
   entries [[1::nat, 2], [1, 2]]
        \<lparr>valueMap = [(1, 10::nat)], subkeyToKeys = (\<lambda>e. None)(1 \<mapsto> [1], 2 \<mapsto> [1])\<rparr> =
     ([[1, 2], [1, 2], [1, 2]], [(2, 10)]) \<and>
   2 \<notin> canon \<lparr>valueMap = [(1, 10::nat)], subkeyToKeys = (\<lambda>e::nat. None)(1 \<mapsto> [1], 2 \<mapsto> [1])\<rparr> \<and>
   mutation_invisible [[1::nat, 2], [1, 2], [1, 2]]
        \<lparr>valueMap = [(1, 10::nat)], subkeyToKeys = (\<lambda>e. None)(1 \<mapsto> [1], 2 \<mapsto> [1])\<rparr> 2 \<and>
   get ([[1::nat, 2], [1, 2], [1, 2]][2 := [1, 2, 3]])
        \<lparr>valueMap = [(1, 10::nat)], subkeyToKeys = (\<lambda>e. None)(1 \<mapsto> [1], 2 \<mapsto> [1])\<rparr> 0 = Some 10 \<and>
   get ([[1::nat, 2], [1, 2], [1, 2]][2 := [1, 2, 3]])
        \<lparr>valueMap = [(1, 10::nat)], subkeyToKeys = (\<lambda>e. None)(1 \<mapsto> [1], 2 \<mapsto> [1])\<rparr> 2 = None"
proof -
  have ks: "keys [[1::nat, 2], [1, 2]]
        \<lparr>valueMap = [(1, 10::nat)], subkeyToKeys = (\<lambda>e. None)(1 \<mapsto> [1], 2 \<mapsto> [1])\<rparr> =
     ([[1, 2], [1, 2], [1, 2]], [2])"
    by (simp add: eval_defs)
  have es: "entries [[1::nat, 2], [1, 2]]
        \<lparr>valueMap = [(1, 10::nat)], subkeyToKeys = (\<lambda>e. None)(1 \<mapsto> [1], 2 \<mapsto> [1])\<rparr> =
     ([[1, 2], [1, 2], [1, 2]], [(2, 10)])"
    by (simp add: eval_defs)
  have g: "get ([[1::nat, 2], [1, 2], [1, 2]][2 := [1, 2, 3]])
        \<lparr>valueMap = [(1, 10::nat)], subkeyToKeys = (\<lambda>e. None)(1 \<mapsto> [1], 2 \<mapsto> [1])\<rparr> 0 = Some 10"
    and g2: "get ([[1::nat, 2], [1, 2], [1, 2]][2 := [1, 2, 3]])
        \<lparr>valueMap = [(1, 10::nat)], subkeyToKeys = (\<lambda>e. None)(1 \<mapsto> [1], 2 \<mapsto> [1])\<rparr> 2 = None"
    by (simp_all add: eval_defs)
  from iteration_yields_fresh_copies [OF one_entry_trace ks es]
  have "2 \<notin> canon \<lparr>valueMap = [(1, 10::nat)], subkeyToKeys = (\<lambda>e::nat. None)(1 \<mapsto> [1], 2 \<mapsto> [1])\<rparr> \<and>
        mutation_invisible [[1::nat, 2], [1, 2], [1, 2]]
          \<lparr>valueMap = [(1, 10::nat)], subkeyToKeys = (\<lambda>e. None)(1 \<mapsto> [1], 2 \<mapsto> [1])\<rparr> 2"
    by simp
  with one_entry_trace ks es g g2 show ?thesis by simp
qed

section \<open>Derived containers\<close>

lemma equivalence_invarianceI:
  assumes inv: "invariant h m"
  shows "equivalence_invariance h m"
  unfolding equivalence_invariance_def
proof (intro allI impI)
  fix K xs v
  assume a: "callerKey h m K \<and> (xs, v) \<in> set (entriesOf h m) \<and> xs \<noteq> [] \<and> set (h ! K) = set xs"
  then obtain c where c: "(c, v) \<in> set (valueMap m)" and hc: "h ! c = xs"
    by (auto simp: entriesOf_member)
  from a have ne: "h ! K \<noteq> []" by (metis set_empty)
  from a hc have eq: "set (h ! c) = set (h ! K)" by simp
  from a have "K < length h" by (simp add: callerKey_def)
  from get_found [OF inv this ne c eq] show "get h m K = Some v \<and> has h m K" by simp
qed

lemma set_skm_heap_extends: "\<exists>ext. fst (set_skm h m key v) = h @ ext"
  by (cases "getCannonicalKey h m key") (simp_all add: set_skm_update set_skm_insert)

lemma mutating_run_extends:
  "list_all mutating cs \<Longrightarrow> run cs (h1, m1) = Some (h2, m2) \<Longrightarrow> \<exists>ext. h2 = h1 @ ext"
proof (induction cs arbitrary: h1 m1)
  case Nil
  then show ?case by simp
next
  case (Cons c cs)
  from Cons.prems(2) obtain h' m' where s: "step c (h1, m1) = Some (h', m')"
    and r: "run cs (h', m') = Some (h2, m2)"
    by (cases "step c (h1, m1)") auto
  from Cons.prems(1) have mc: "mutating c" and mcs: "list_all mutating cs" by simp_all
  have "\<exists>ext. h' = h1 @ ext"
  proof (cases c)
    case (Set key v)
    with s set_skm_heap_extends [of h1 m1 key v] show ?thesis
      by (auto split: if_splits)
  next
    case (Delete key)
    with s show ?thesis by (auto split: if_splits)
  next
    case Clear
    with s show ?thesis by auto
  qed (use mc in simp_all)
  with Cons.IH [OF mcs r] show ?case by auto
qed

lemma isolatedI:
  assumes bound: "\<And>k. k \<in> canon m \<Longrightarrow> k < length h1" and disj: "canon m1 \<inter> canon m = {}"
  shows "isolated h1 m1 m"
  unfolding isolated_def
proof (intro conjI allI impI)
  show "canon m1 \<inter> canon m = {}" by (rule disj)
  fix cs h2 m2
  assume "list_all mutating cs \<and> run cs (h1, m1) = Some (h2, m2)"
  with mutating_run_extends obtain ext where "h2 = h1 @ ext" by blast
  with bound show "entriesOf h2 m = entriesOf h1 m"
    by (intro entriesOf_heap_change) (simp add: nth_append)
qed

text \<open>
  C7, as the claim states it, fails for a retained entry with an empty key: \<open>filter\<close> and
  \<open>mapOver\<close> keep the entry, and \<open>get\<close> with an empty key on the derived container finds
  nothing.
\<close>

theorem derivative_empty_key_counterexample:
  "run [NewSet [], Set 0 (1::nat)] init =
     Some ([[], []] :: nat heap, \<lparr>valueMap = [(1, 1)], subkeyToKeys = (\<lambda>e. None)\<rparr>) \<and>
   filter_skm (\<lambda>v xs. True) ([[], []] :: nat heap)
       \<lparr>valueMap = [(1, 1::nat)], subkeyToKeys = (\<lambda>e. None)\<rparr> =
     ([[], [], [], []], \<lparr>valueMap = [(3, 1)], subkeyToKeys = (\<lambda>e. None)\<rparr>) \<and>
   mapOver (\<lambda>v xs. v + 1) ([[], []] :: nat heap)
       \<lparr>valueMap = [(1, 1::nat)], subkeyToKeys = (\<lambda>e. None)\<rparr> =
     ([[], [], [], []], \<lparr>valueMap = [(3, 2::nat)], subkeyToKeys = (\<lambda>e. None)\<rparr>) \<and>
   entriesOf ([[], [], [], []] :: nat heap) \<lparr>valueMap = [(3, 1::nat)], subkeyToKeys = (\<lambda>e. None)\<rparr> =
     [([], 1)] \<and>
   callerKey ([[], [], [], []] :: nat heap) \<lparr>valueMap = [(3, 1::nat)], subkeyToKeys = (\<lambda>e. None)\<rparr> 0 \<and>
   get ([[], [], [], []] :: nat heap) \<lparr>valueMap = [(3, 1::nat)], subkeyToKeys = (\<lambda>e. None)\<rparr> 0 = None \<and>
   get ([[], [], [], []] :: nat heap) \<lparr>valueMap = [(3, 2::nat)], subkeyToKeys = (\<lambda>e. None)\<rparr> 0 = None"
  by (simp add: eval_defs)

text \<open>
  C7, amended. In every reachable state, \<open>filter\<close> and \<open>mapOver\<close> return a new container,
  populated through \<open>set\<close>, that holds exactly the retained (transformed) entries in
  Store order and leaves the entries of the source as they were. In the derived
  container, \<open>get\<close> with any key equivalent to a retained key with at least one element
  returns the retained (transformed) value. The derived container shares no key object
  with the source, and no later \<open>set\<close>, \<open>delete\<close> or \<open>clear\<close> on it changes the entries
  (hence the size) of the source.
\<close>

theorem derivative_isolation_nonempty:
  assumes reach: "run cs init = Some (h, m)"
    and f: "filter_skm p h m = (hf, mf)" and g: "mapOver t h m = (hm, mm)"
  shows "entriesOf hf mf = filter (\<lambda>(xs, v). p v xs) (entriesOf h m) \<and>
         entriesOf hf m = entriesOf h m \<and>
         equivalence_invariance hf mf \<and> isolated hf mf m \<and>
         entriesOf hm mm = map (\<lambda>(xs, v). (xs, t v xs)) (entriesOf h m) \<and>
         entriesOf hm m = entriesOf h m \<and>
         equivalence_invariance hm mm \<and> isolated hm mm m"
proof -
  note inv = reachable_invariant [OF reach]
  note F = filter_skm_result [OF inv f]
  note G = mapOver_result [OF inv g]
  from F(2) obtain ef where ef: "hf = h @ ef" ..
  from G(2) obtain eg where eg: "hm = h @ eg" ..
  have bf: "k < length hf" if "k \<in> canon m" for k
    using invariantD(3) [OF inv that] ef by simp
  have bg: "k < length hm" if "k \<in> canon m" for k
    using invariantD(3) [OF inv that] eg by simp
  have sf: "entriesOf hf m = entriesOf h m"
    using invariantD(3) [OF inv] ef by (intro entriesOf_heap_change) (simp add: nth_append)
  have sg: "entriesOf hm m = entriesOf h m"
    using invariantD(3) [OF inv] eg by (intro entriesOf_heap_change) (simp add: nth_append)
  from F(3) sf equivalence_invarianceI [OF F(1)] isolatedI [OF bf F(4)]
       G(3) sg equivalence_invarianceI [OF G(1)] isolatedI [OF bg G(4)]
  show ?thesis by blast
qed

lemma source_trace:
  "run [NewSet [1::nat, 2], Set 0 (10::nat), NewSet [3], Set 2 20] init =
     Some ([[1::nat, 2], [1, 2], [3], [3]],
           \<lparr>valueMap = [(1, 10::nat), (3, 20)], subkeyToKeys = (\<lambda>e. None)(1 \<mapsto> [1], 2 \<mapsto> [1], 3 \<mapsto> [3])\<rparr>)"
  by (simp add: eval_defs fun_eq_iff)

theorem derivative_isolation_nonempty_witness:
  "run [NewSet [1::nat, 2], Set 0 (10::nat), NewSet [3], Set 2 20] init =
     Some ([[1::nat, 2], [1, 2], [3], [3]],
           \<lparr>valueMap = [(1, 10::nat), (3, 20)], subkeyToKeys = (\<lambda>e. None)(1 \<mapsto> [1], 2 \<mapsto> [1], 3 \<mapsto> [3])\<rparr>) \<and>
   filter_skm (\<lambda>v xs. 10 < v) [[1::nat, 2], [1, 2], [3], [3]]
       \<lparr>valueMap = [(1, 10::nat), (3, 20)], subkeyToKeys = (\<lambda>e. None)(1 \<mapsto> [1], 2 \<mapsto> [1], 3 \<mapsto> [3])\<rparr> =
     ([[1::nat, 2], [1, 2], [3], [3], [1, 2], [3], [3]],
      \<lparr>valueMap = [(6, 20::nat)], subkeyToKeys = (\<lambda>e. None)(3 \<mapsto> [6])\<rparr>) \<and>
   mapOver (\<lambda>v xs. v + 1) [[1::nat, 2], [1, 2], [3], [3]]
       \<lparr>valueMap = [(1, 10::nat), (3, 20)], subkeyToKeys = (\<lambda>e. None)(1 \<mapsto> [1], 2 \<mapsto> [1], 3 \<mapsto> [3])\<rparr> =
     ([[1::nat, 2], [1, 2], [3], [3], [1, 2], [1, 2], [3], [3]],
      \<lparr>valueMap = [(5, 11::nat), (7, 21)], subkeyToKeys = (\<lambda>e. None)(1 \<mapsto> [5], 2 \<mapsto> [5], 3 \<mapsto> [7])\<rparr>) \<and>
   entriesOf [[1::nat, 2], [1, 2], [3], [3], [1, 2], [3], [3]]
       \<lparr>valueMap = [(6, 20::nat)], subkeyToKeys = (\<lambda>e. None)(3 \<mapsto> [6])\<rparr> = [([3], 20)] \<and>
   get [[1::nat, 2], [1, 2], [3], [3], [1, 2], [3], [3]]
       \<lparr>valueMap = [(6, 20::nat)], subkeyToKeys = (\<lambda>e. None)(3 \<mapsto> [6])\<rparr> 2 = Some 20 \<and>
   entriesOf [[1::nat, 2], [1, 2], [3], [3], [1, 2], [1, 2], [3], [3]]
       \<lparr>valueMap = [(5, 11::nat), (7, 21)], subkeyToKeys = (\<lambda>e. None)(1 \<mapsto> [5], 2 \<mapsto> [5], 3 \<mapsto> [7])\<rparr> = [([1, 2], 11), ([3], 21)] \<and>
   get [[1::nat, 2], [1, 2], [3], [3], [1, 2], [1, 2], [3], [3]]
       \<lparr>valueMap = [(5, 11::nat), (7, 21)], subkeyToKeys = (\<lambda>e. None)(1 \<mapsto> [5], 2 \<mapsto> [5], 3 \<mapsto> [7])\<rparr> 0 = Some 11 \<and>
   run [Set 0 5, Delete 2, Clear]
       ([[1::nat, 2], [1, 2], [3], [3], [1, 2], [3], [3]],
        \<lparr>valueMap = [(6, 20::nat)], subkeyToKeys = (\<lambda>e. None)(3 \<mapsto> [6])\<rparr>) =
     Some ([[1::nat, 2], [1, 2], [3], [3], [1, 2], [3], [3]] @ [[1, 2]], new_SetKeyedMap) \<and>
   entriesOf ([[1::nat, 2], [1, 2], [3], [3], [1, 2], [3], [3]] @ [[1, 2]])
       \<lparr>valueMap = [(1, 10::nat), (3, 20)], subkeyToKeys = (\<lambda>e. None)(1 \<mapsto> [1], 2 \<mapsto> [1], 3 \<mapsto> [3])\<rparr> = [([1, 2], 10), ([3], 20)]"
proof -
  have f: "filter_skm (\<lambda>v xs. 10 < v) [[1::nat, 2], [1, 2], [3], [3]]
       \<lparr>valueMap = [(1, 10::nat), (3, 20)], subkeyToKeys = (\<lambda>e. None)(1 \<mapsto> [1], 2 \<mapsto> [1], 3 \<mapsto> [3])\<rparr> =
     ([[1::nat, 2], [1, 2], [3], [3], [1, 2], [3], [3]],
      \<lparr>valueMap = [(6, 20::nat)], subkeyToKeys = (\<lambda>e. None)(3 \<mapsto> [6])\<rparr>)"
    by (simp add: eval_defs fun_eq_iff)
  have g: "mapOver (\<lambda>v xs. v + 1) [[1::nat, 2], [1, 2], [3], [3]]
       \<lparr>valueMap = [(1, 10::nat), (3, 20)], subkeyToKeys = (\<lambda>e. None)(1 \<mapsto> [1], 2 \<mapsto> [1], 3 \<mapsto> [3])\<rparr> =
     ([[1::nat, 2], [1, 2], [3], [3], [1, 2], [1, 2], [3], [3]],
      \<lparr>valueMap = [(5, 11::nat), (7, 21)], subkeyToKeys = (\<lambda>e. None)(1 \<mapsto> [5], 2 \<mapsto> [5], 3 \<mapsto> [7])\<rparr>)"
    by (simp add: eval_defs fun_eq_iff)
  have later: "run [Set 0 5, Delete 2, Clear]
       ([[1::nat, 2], [1, 2], [3], [3], [1, 2], [3], [3]],
        \<lparr>valueMap = [(6, 20::nat)], subkeyToKeys = (\<lambda>e. None)(3 \<mapsto> [6])\<rparr>) =
     Some ([[1::nat, 2], [1, 2], [3], [3], [1, 2], [3], [3]] @ [[1, 2]], new_SetKeyedMap)"
    by (simp add: eval_defs fun_eq_iff)
  from derivative_isolation_nonempty [OF source_trace f g] source_trace f g later
  show ?thesis by (simp add: eval_defs)
qed

section \<open>reduce and reduceRight\<close>

lemma reduce_loop_forward:
  "list_all (\<lambda>(k, v). k < length h) es \<Longrightarrow>
   snd (reduce_loop f es h a) = foldl (\<lambda>acc (xs, v). f acc v xs) a (map (\<lambda>(k, v). (h ! k, v)) es)"
proof (induction es arbitrary: h a)
  case Nil
  then show ?case by simp
next
  case (Cons e es)
  obtain k v where e: "e = (k, v)" by (cases e)
  from Cons.prems e have k: "k < length h" and rest: "list_all (\<lambda>(k, v). k < length h) es"
    by simp_all
  from rest have rest': "list_all (\<lambda>(k', v). k' < length (h @ [h ! k])) es"
    by (induction es) (auto simp: less_Suc_eq)
  have same: "map (\<lambda>(k', v). ((h @ [h ! k]) ! k', v)) es = map (\<lambda>(k', v). (h ! k', v)) es"
    using rest by (induction es) (auto simp: nth_append)
  show ?case
    using Cons.IH [OF rest', of "f a v (h ! k)"] same
    by (simp add: e createUserFacingKey_def newSetFrom_def)
qed

lemma reduceRight_loop_eq: "reduceRight_loop f es h a = reduce_loop f es h a"
  by (induction es arbitrary: h a) (auto split: prod.splits)

text \<open>
  C10. For every container, callback and initial accumulator, \<open>reduceRight\<close> returns
  exactly what \<open>reduce\<close> returns (the accumulated value, and the same heap after the key
  copies handed to the callback were allocated); and when the stored keys are allocated
  objects, as they always are, that value is the fold of the callback over the entries
  from the first to the last in Store order.
\<close>

theorem reduceRight_eq_reduce:
  "reduceRight callbackfn initialValue h m = reduce callbackfn initialValue h m \<and>
   (list_all (\<lambda>(k, v). k < length h) (valueMap m) \<longrightarrow>
      snd (reduceRight callbackfn initialValue h m) =
        foldl (\<lambda>acc (xs, v). callbackfn acc v xs) initialValue (entriesOf h m))"
  by (simp add: reduceRight_def reduce_def reduceRight_loop_eq reduce_loop_forward entriesOf_def)

theorem reduceRight_eq_reduce_witness:
  "list_all (\<lambda>(k, v). k < length [[1::nat], [1], [2], [2]]) [(1, 10::nat), (3, 20)] \<and>
   reduceRight (\<lambda>acc v xs. acc @ [v]) [] [[1::nat], [1], [2], [2]]
       \<lparr>valueMap = [(1, 10::nat), (3, 20)], subkeyToKeys = (\<lambda>e. None)(1 \<mapsto> [1], 2 \<mapsto> [3])\<rparr> =
     ([[1], [1], [2], [2], [1], [2]], [10, 20]) \<and>
   reduce (\<lambda>acc v xs. acc @ [v]) [] [[1::nat], [1], [2], [2]]
       \<lparr>valueMap = [(1, 10::nat), (3, 20)], subkeyToKeys = (\<lambda>e. None)(1 \<mapsto> [1], 2 \<mapsto> [3])\<rparr> =
     ([[1], [1], [2], [2], [1], [2]], [10, 20]) \<and>
   foldl (\<lambda>acc (xs, v). acc @ [v]) []
     (entriesOf [[1::nat], [1], [2], [2]]
        \<lparr>valueMap = [(1, 10::nat), (3, 20)], subkeyToKeys = (\<lambda>e. None)(1 \<mapsto> [1], 2 \<mapsto> [3])\<rparr>) =
     [10, 20]"
  using reduceRight_eq_reduce [of "\<lambda>acc v xs. acc @ [v]" "[]" "[[1::nat], [1], [2], [2]]"
      "\<lparr>valueMap = [(1, 10::nat), (3, 20)], subkeyToKeys = (\<lambda>e. None)(1 \<mapsto> [1], 2 \<mapsto> [3])\<rparr>"]
  by (simp add: reduceRight_def reduce_def eval_defs)

end
